theory Spec2Isabelle
  imports Main "HOL-Library.Extended_Nat"
begin

section \<open>Data model of \<open>src/diff/makePatterns.ts\<close>\<close>

text \<open>
  JavaScript exceptions the functions of this file can raise: \<open>String.prototype.repeat\<close>
  with a negative count raises a RangeError, and a method call on \<open>undefined\<close> raises a
  TypeError.
\<close>

datatype error = RangeError | TypeError

text \<open>
  Modelled from the spec: the type \<open>Token\<close> of the package \<open>source-code-tokenizer\<close>,
  whose declaration is not among the sources. The fields are the ones the code reads
  (\<open>value\<close>, \<open>scopes\<close>, \<open>line\<close>, \<open>columns.start\<close>, \<open>columns.end\<close>) and the
  specification's data model lists. \<open>line\<close> and the two columns are JavaScript numbers,
  here integers. The field \<open>value\<close> is named \<open>tok_value\<close>, and \<open>end\<close> is named
  \<open>end_col\<close>.
\<close>

record Columns =
  start :: int
  end_col :: int

record Token =
  tok_value :: string
  scopes :: "string list"
  line :: int
  columns :: Columns

text \<open>
  The interface \<open>Identifier\<close>. Its \<open>scope\<close> is filled from
  \<open>scopes[scopes.length - 1]\<close>, which is \<open>undefined\<close> for a token without scopes, so the
  field holds an optional string.
\<close>

record Identifier =
  id_value :: string
  scope :: "string option"

text \<open>
  Modelled from the spec: the type \<open>Pattern\<close> of \<open>src/patterns\<close>, whose declaration is
  not among the sources, with the three fields that \<open>makePatterns\<close> fills.
\<close>

record Pattern =
  condition :: "string list"
  consequent :: "string list"
  identifiers :: "string list"

text \<open>
  Modelled from the spec: the type \<open>Chunk\<close> of \<open>src/diff/diffparser\<close>, whose
  declaration is not among the sources, with the three fields that
  \<open>makePatternsFromChunk\<close> reads.
\<close>

record Chunk =
  deleted :: "string list"
  added :: "string list"
  source :: string

text \<open>The expression \<open>token.scopes[token.scopes.length - 1]\<close>: \<open>None\<close> is \<open>undefined\<close>.\<close>

definition innermost :: "Token \<Rightarrow> string option" where
  "innermost t = (if scopes t = [] then None else Some (last (scopes t)))"

section \<open>Pattern normalizer: \<open>countSpace\<close> and \<open>formatPatterns\<close>\<close>

text \<open>The inner loop of \<open>countSpace\<close>: count characters until the first one that is not a space.\<close>

fun leadingSpaces :: "string \<Rightarrow> nat" where
  "leadingSpaces [] = 0"
| "leadingSpaces (c # cs) = (if c = CHR '' '' then Suc (leadingSpaces cs) else 0)"

text \<open>The outer loop of \<open>countSpace\<close>, with the array \<open>spaces\<close> as accumulator.\<close>

fun spacesLoop :: "string list \<Rightarrow> nat list \<Rightarrow> nat list" where
  "spacesLoop [] spaces = spaces"
| "spacesLoop (patternLine # rest) spaces =
     (if patternLine = [] then spacesLoop rest spaces
      else spacesLoop rest (spaces @ [leadingSpaces patternLine]))"

text \<open>\<open>Math.min(...spaces)\<close>: the least argument, and \<open>Infinity\<close> when there is none.\<close>

fun mathMin :: "nat list \<Rightarrow> enat" where
  "mathMin [] = \<infinity>"
| "mathMin (x # xs) = min (enat x) (mathMin xs)"

definition countSpace :: "string list \<Rightarrow> enat" where
  "countSpace patternLines = mathMin (spacesLoop patternLines [])"

text \<open>
  \<open>line.slice(n)\<close> for \<open>n \<ge> 0\<close>: the string from position \<open>n\<close> on, empty when \<open>n\<close>
  is at least the length (so also for \<open>Infinity\<close>).
\<close>

definition slice :: "string \<Rightarrow> enat \<Rightarrow> string" where
  "slice l n = (case n of enat k \<Rightarrow> drop k l | \<infinity> \<Rightarrow> [])"

text \<open>\<open>formatPatterns\<close> returns the object \<open>{condition, consequent}\<close>, here a pair.\<close>

definition formatPatterns :: "string list \<Rightarrow> string list \<Rightarrow> string list \<times> string list" where
  "formatPatterns conditon consequent' =
     (let minSpace = min (countSpace conditon) (countSpace consequent')
      in (map (\<lambda>l. slice l minSpace) conditon, map (\<lambda>l. slice l minSpace) consequent'))"

definition isEmptyPattern :: "string list \<Rightarrow> bool" where
  "isEmptyPattern pattern = (length pattern = 1 \<and> pattern ! 0 = [])"

section \<open>Identifier unifier: \<open>isAbstractable\<close>, \<open>checkInIdentifiers\<close>, \<open>collectCommonIdentifiers\<close>\<close>

definition isLetter :: "char \<Rightarrow> bool" where
  "isLetter c = (let n = (of_char c :: nat) in (97 \<le> n \<and> n \<le> 122) \<or> (65 \<le> n \<and> n \<le> 90))"

definition isDigit :: "char \<Rightarrow> bool" where
  "isDigit c = (let n = (of_char c :: nat) in 48 \<le> n \<and> n \<le> 57)"

text \<open>
  \<open>token.value.match(/^([a-zA-Z][a-zA-Z0-9]*)|[0-9]+$/i)\<close>, read as a truth value. In a
  regular expression the alternation binds weaker than the anchors, so the two alternatives
  are \<open>^([a-zA-Z][a-zA-Z0-9]*)\<close> and \<open>[0-9]+$\<close>. The first matches at the start of the
  value as soon as the first character is a letter (the starred class may match nothing);
  the second matches somewhere when the value ends in a digit.
\<close>

definition firstAlternative :: "string \<Rightarrow> bool" where
  "firstAlternative v = (case v of [] \<Rightarrow> False | c # cs \<Rightarrow> isLetter c)"

definition secondAlternative :: "string \<Rightarrow> bool" where
  "secondAlternative v = (case rev v of [] \<Rightarrow> False | c # cs \<Rightarrow> isDigit c)"

definition isAlphanumeric :: "string \<Rightarrow> bool" where
  "isAlphanumeric v = (firstAlternative v \<or> secondAlternative v)"

text \<open>\<open>s.includes(sub)\<close>, named \<open>includesStr\<close>: \<open>sub\<close> occurs in \<open>s\<close> as a contiguous substring.\<close>

fun includesStr :: "string \<Rightarrow> string \<Rightarrow> bool" where
  "includesStr [] sub = (sub = [])"
| "includesStr (c # cs) sub = (take (length sub) (c # cs) = sub \<or> includesStr cs sub)"

text \<open>
  \<open>isAbstractable\<close>, read as a truth value (\<open>null\<close> is false). When the value matches
  and the token has no scope, \<open>scope.includes\<close> is a call on \<open>undefined\<close>.
\<close>

definition isAbstractable :: "Token \<Rightarrow> error + bool" where
  "isAbstractable token =
     (if isAlphanumeric (tok_value token)
      then (case innermost token of
              None \<Rightarrow> Inl TypeError
            | Some sc \<Rightarrow> Inr (\<not> includesStr sc ''keyword'' \<and> \<not> includesStr sc ''builtin''
                              \<and> \<not> includesStr sc ''storage''))
      else Inr False)"

text \<open>The loop of \<open>checkInIdentifiers\<close>, with \<open>identIndex\<close> as argument; \<open>None\<close> is \<open>undefined\<close>.\<close>

fun checkLoop :: "Identifier list \<Rightarrow> Token \<Rightarrow> nat \<Rightarrow> nat option" where
  "checkLoop [] token identIndex = None"
| "checkLoop (identifier # rest) token identIndex =
     (if tok_value token = id_value identifier \<and> innermost token = scope identifier
      then Some identIndex
      else checkLoop rest token (Suc identIndex))"

definition checkInIdentifiers :: "Identifier list \<Rightarrow> Token \<Rightarrow> nat option" where
  "checkInIdentifiers ids token = checkLoop ids token 1"

text \<open>
  The inner loop of \<open>collectCommonIdentifiers\<close> over the after-tokens, for one before-token.
  The condition is evaluated left to right, so \<open>isAbstractable\<close> is called only when the
  three tests before it hold.
\<close>

fun innerLoop :: "Token \<Rightarrow> Token list \<Rightarrow> Identifier list \<Rightarrow> error + Identifier list" where
  "innerLoop beforeToken [] ids = Inr ids"
| "innerLoop beforeToken (afterToken # rest) ids =
     (if tok_value beforeToken = tok_value afterToken
         \<and> innermost beforeToken = innermost afterToken
         \<and> checkInIdentifiers ids beforeToken = None
      then (case isAbstractable beforeToken of
              Inl e \<Rightarrow> Inl e
            | Inr ok \<Rightarrow>
                innerLoop beforeToken rest
                  (if ok then ids @ [\<lparr>id_value = tok_value beforeToken, scope = innermost beforeToken\<rparr>]
                   else ids))
      else innerLoop beforeToken rest ids)"

fun outerLoop :: "Token list \<Rightarrow> Token list \<Rightarrow> Identifier list \<Rightarrow> error + Identifier list" where
  "outerLoop [] afterTokens ids = Inr ids"
| "outerLoop (beforeToken # rest) afterTokens ids =
     (case innerLoop beforeToken afterTokens ids of
        Inl e \<Rightarrow> Inl e
      | Inr ids' \<Rightarrow> outerLoop rest afterTokens ids')"

definition collectCommonIdentifiers :: "Token list \<Rightarrow> Token list \<Rightarrow> error + Identifier list" where
  "collectCommonIdentifiers beforeTokens afterTokens = outerLoop beforeTokens afterTokens []"

section \<open>Token abstractor: \<open>makeAbstractedCode\<close>\<close>

text \<open>A number in a template literal: its decimal digits.\<close>

function string_of_nat :: "nat \<Rightarrow> string" where
  "string_of_nat n =
     (if n < 10 then [char_of (48 + n)]
      else string_of_nat (n div 10) @ [char_of (48 + n mod 10)])"
  by pat_completeness auto
termination
  by (relation "measure id") auto

text \<open>A string or \<open>undefined\<close> in a template literal.\<close>

definition scopeText :: "string option \<Rightarrow> string" where
  "scopeText sc = (case sc of None \<Rightarrow> ''undefined'' | Some s \<Rightarrow> s)"

text \<open>The template literal of line 94: a dollar sign, a brace, the index, a colon, the scope, a brace.\<close>

definition placeholder :: "nat \<Rightarrow> string option \<Rightarrow> string" where
  "placeholder identIndex sc = ''${'' @ string_of_nat identIndex @ '':'' @ scopeText sc @ ''}''"

text \<open>The constant \<open>value\<close> of lines 92 to 95: what the abstractor emits for one token.\<close>

definition tokenText :: "Identifier list \<Rightarrow> Token \<Rightarrow> string" where
  "tokenText ids token =
     (case checkInIdentifiers ids token of
        Some identIndex \<Rightarrow> placeholder identIndex (innermost token)
      | None \<Rightarrow> tok_value token)"

text \<open>\<open>' '.repeat(n)\<close>: a RangeError for a negative count.\<close>

definition repeatSpace :: "int \<Rightarrow> error + string" where
  "repeatSpace n = (if n < 0 then Inl RangeError else Inr (replicate (nat n) (CHR '' '')))"

text \<open>
  The loop of \<open>makeAbstractedCode\<close>, with the four mutable variables as arguments; the
  push after the loop is the base case.
\<close>

fun abstractLoop ::
  "Identifier list \<Rightarrow> Token list \<Rightarrow> string list \<Rightarrow> int \<Rightarrow> int \<Rightarrow> string \<Rightarrow> error + string list" where
  "abstractLoop ids [] patterns previousPosition previousLine lineContents =
     Inr (patterns @ [lineContents])"
| "abstractLoop ids (token # rest) patterns previousPosition previousLine lineContents =
     (let previousLine1 = (if previousLine = 0 then line token else previousLine);
          newLine = (line token \<noteq> previousLine1);
          patterns2 = (if newLine then patterns @ [lineContents] else patterns);
          previousPosition2 = (if newLine then 1 else previousPosition);
          previousLine2 = (if newLine then line token else previousLine1);
          lineContents2 = (if newLine then [] else lineContents)
      in case repeatSpace (start (columns token) - previousPosition2) of
           Inl e \<Rightarrow> Inl e
         | Inr gap \<Rightarrow>
             abstractLoop ids rest patterns2 (end_col (columns token)) previousLine2
               (lineContents2 @ gap @ tokenText ids token))"

definition makeAbstractedCode :: "Token list \<Rightarrow> Identifier list \<Rightarrow> error + string list" where
  "makeAbstractedCode tokens ids = abstractLoop ids tokens [] 1 0 []"

section \<open>Driver: \<open>makePatterns\<close>, \<open>makePatternsFromChunk\<close>, \<open>makePatternsFromDiff\<close>\<close>

text \<open>
  The tokenizer (\<open>tokenize\<close> of \<open>source-code-tokenizer\<close>) and the diff parser
  (\<open>makeDiffObj\<close> of \<open>src/diff/diffparser\<close>) are not among the sources; they are
  parameters here. The tokenizer returns an object holding the token list, or
  \<open>undefined\<close>.
\<close>

type_synonym tokenizer = "string \<Rightarrow> string \<Rightarrow> Token list option"

definition makePatterns ::
  "tokenizer \<Rightarrow> string option \<Rightarrow> string option \<Rightarrow> string option \<Rightarrow> error + Pattern option" where
  "makePatterns tokenize before after src =
     (case (before, after, src) of
        (Some b, Some a, Some s) \<Rightarrow>
          (case (tokenize b s, tokenize a s) of
             (Some beforeTokens, Some afterTokens) \<Rightarrow>
               (case collectCommonIdentifiers beforeTokens afterTokens of
                  Inl e \<Rightarrow> Inl e
                | Inr ids \<Rightarrow>
                    (case makeAbstractedCode beforeTokens ids of
                       Inl e \<Rightarrow> Inl e
                     | Inr conditionPatterns \<Rightarrow>
                         (case makeAbstractedCode afterTokens ids of
                            Inl e \<Rightarrow> Inl e
                          | Inr consequentPatterns \<Rightarrow>
                              (case formatPatterns conditionPatterns consequentPatterns of
                                 (c, q) \<Rightarrow>
                                   Inr (Some \<lparr>condition = c, consequent = q,
                                              identifiers = map id_value ids\<rparr>)))))
           | _ \<Rightarrow> Inr None)
      | _ \<Rightarrow> Inr None)"

text \<open>\<open>lines.join('\n')\<close>.\<close>

fun join :: "string list \<Rightarrow> string" where
  "join [] = []"
| "join [x] = x"
| "join (x # y # ys) = x @ [CHR 0x0A] @ join (y # ys)"

definition makePatternsFromChunk :: "tokenizer \<Rightarrow> Chunk \<Rightarrow> error + Pattern option" where
  "makePatternsFromChunk tokenize chunk =
     makePatterns tokenize (Some (join (deleted chunk))) (Some (join (added chunk)))
       (Some (source chunk))"

text \<open>The loop of \<open>makePatternsFromDiff\<close>; an exception of a chunk rejects the whole call.\<close>

fun diffLoop :: "tokenizer \<Rightarrow> Chunk list \<Rightarrow> Pattern list \<Rightarrow> error + Pattern list" where
  "diffLoop tokenize [] patterns = Inr patterns"
| "diffLoop tokenize (chunk # rest) patterns =
     (case makePatternsFromChunk tokenize chunk of
        Inl e \<Rightarrow> Inl e
      | Inr None \<Rightarrow> diffLoop tokenize rest patterns
      | Inr (Some pattern) \<Rightarrow>
          diffLoop tokenize rest
            (if \<not> isEmptyPattern (condition pattern) \<and> \<not> isEmptyPattern (consequent pattern)
             then patterns @ [pattern] else patterns))"

definition makePatternsFromDiff ::
  "tokenizer \<Rightarrow> (string \<Rightarrow> Chunk list) \<Rightarrow> string \<Rightarrow> error + Pattern list" where
  "makePatternsFromDiff tokenize makeDiffObj diff = diffLoop tokenize (makeDiffObj diff) []"

section \<open>Definitions that follow the specification's words\<close>

subsection \<open>Normalizer\<close>

text \<open>The leading-space count of a line.\<close>

definition leadingSpaceCount :: "string \<Rightarrow> nat" where
  "leadingSpaceCount l = length (takeWhile (\<lambda>c. c = CHR '' '') l)"

text \<open>
  The minimum leading-space count of one side over its non-empty lines; undefined
  (\<open>None\<close>) when the side has no non-empty line.
\<close>

definition sideMinimum :: "string list \<Rightarrow> nat option" where
  "sideMinimum ls =
     (case filter (\<lambda>l. l \<noteq> []) ls of
        [] \<Rightarrow> None
      | x # xs \<Rightarrow> Some (Min (set (map leadingSpaceCount (x # xs)))))"

text \<open>
  The overall minimum across both sides; it resolves from the other side when one side
  has no minimum.
\<close>

definition overallMinimum :: "string list \<Rightarrow> string list \<Rightarrow> nat option" where
  "overallMinimum c q =
     (case (sideMinimum c, sideMinimum q) of
        (None, None) \<Rightarrow> None
      | (Some a, None) \<Rightarrow> Some a
      | (None, Some b) \<Rightarrow> Some b
      | (Some a, Some b) \<Rightarrow> Some (min a b))"

text \<open>Indenting a line by \<open>k\<close> spaces; an empty line stays empty.\<close>

definition indent :: "nat \<Rightarrow> string \<Rightarrow> string" where
  "indent k l = (if l = [] then [] else replicate k (CHR '' '') @ l)"

subsection \<open>Abstractable predicate\<close>

definition isAlnum :: "char \<Rightarrow> bool" where
  "isAlnum c = (isLetter c \<or> isDigit c)"

text \<open>
  The identifier/number-like shape of a whole value: a letter followed by letters and
  digits only, or a non-empty run of digits only.
\<close>

definition identifierShaped :: "string \<Rightarrow> bool" where
  "identifierShaped v =
     ((case v of [] \<Rightarrow> False | c # cs \<Rightarrow> isLetter c \<and> list_all isAlnum cs)
      \<or> (v \<noteq> [] \<and> list_all isDigit v))"

subsection \<open>Token streams as a tokenizer lays them out\<close>

text \<open>Two successive tokens on one line: the second starts at or after the end of the first.\<close>

definition leftToRight :: "Token \<Rightarrow> Token \<Rightarrow> bool" where
  "leftToRight t u = (line t = line u \<longrightarrow> end_col (columns t) \<le> start (columns u))"

text \<open>
  Every token has a scope, a line number other than 0 (the abstractor's marker for
  ``no line yet'') and a start column of at least 1 (the abstractor's cursor at the start
  of a line), and successive tokens run left to right.
\<close>

definition wellFormedTokens :: "Token list \<Rightarrow> bool" where
  "wellFormedTokens ts =
     (list_all (\<lambda>t. scopes t \<noteq> [] \<and> line t \<noteq> 0 \<and> 1 \<le> start (columns t)) ts
      \<and> successively leftToRight ts)"

subsection \<open>Identifier unification\<close>

definition asIdentifier :: "Token \<Rightarrow> Identifier" where
  "asIdentifier t = \<lparr>id_value = tok_value t, scope = innermost t\<rparr>"

text \<open>The abstractable predicate of the code as a truth value.\<close>

definition abstractable :: "Token \<Rightarrow> bool" where
  "abstractable t = (isAbstractable t = Inr True)"

text \<open>The four conditions (i) to (iv) under which a pair of tokens matches.\<close>

definition pairMatches :: "Identifier list \<Rightarrow> Token \<Rightarrow> Token \<Rightarrow> bool" where
  "pairMatches acc b a =
     (tok_value b = tok_value a \<and> innermost b = innermost a
      \<and> asIdentifier b \<notin> set acc \<and> abstractable b)"

text \<open>The inner scan over the after-tokens for one before-token: append on a match.\<close>

definition scanInner :: "Token \<Rightarrow> Token list \<Rightarrow> Identifier list \<Rightarrow> Identifier list" where
  "scanInner b after acc =
     fold (\<lambda>a acc. if pairMatches acc b a then acc @ [asIdentifier b] else acc) after acc"

text \<open>The outer scan over the before-tokens, starting from the empty list.\<close>

definition unifyScan :: "Token list \<Rightarrow> Token list \<Rightarrow> Identifier list" where
  "unifyScan before after = fold (\<lambda>b acc. scanInner b after acc) before []"

text \<open>The elements of a list in the order of their first occurrence, without those already seen.\<close>

fun firstOccurrences :: "'a list \<Rightarrow> 'a list \<Rightarrow> 'a list" where
  "firstOccurrences seen [] = []"
| "firstOccurrences seen (x # xs) =
     (if x \<in> set seen then firstOccurrences seen xs else x # firstOccurrences (x # seen) xs)"

text \<open>A before-token is shared when some after-token has its value and its innermost scope.\<close>

definition sharedToken :: "Token list \<Rightarrow> Token \<Rightarrow> bool" where
  "sharedToken after b = list_ex (\<lambda>a. tok_value b = tok_value a \<and> innermost b = innermost a) after"

subsection \<open>Driver\<close>

text \<open>
  What one chunk contributes to the list of a diff: its pattern, unless the chunk gives no
  pattern or the pattern's condition or consequent is the degenerate empty pattern.
\<close>

definition chunkPatterns :: "tokenizer \<Rightarrow> Chunk \<Rightarrow> Pattern list" where
  "chunkPatterns tokenize chunk =
     (case makePatternsFromChunk tokenize chunk of
        Inr (Some p) \<Rightarrow>
          if isEmptyPattern (condition p) \<or> isEmptyPattern (consequent p) then [] else [p]
      | _ \<Rightarrow> [])"

subsection \<open>Abstracted lines as sequences of segments\<close>





text \<open>
  Lines assembled from groups of tokens: every token contributes a run of spaces and
  its text, in the order of the tokens.
\<close>

definition assembleLine :: "(Token \<Rightarrow> string) \<Rightarrow> Token list \<Rightarrow> nat list \<Rightarrow> string" where
  "assembleLine txt ts gs = concat (map2 (\<lambda>t g. replicate g (CHR '' '') @ txt t) ts gs)"

definition assemble :: "(Token \<Rightarrow> string) \<Rightarrow> Token list list \<Rightarrow> nat list list \<Rightarrow> string list" where
  "assemble txt tss gss = map2 (assembleLine txt) tss gss"



text \<open>A token whose innermost scope contains \<open>keyword\<close>, \<open>builtin\<close> or \<open>storage\<close>.\<close>

definition keywordScoped :: "Token \<Rightarrow> bool" where
  "keywordScoped t =
     (case innermost t of
        None \<Rightarrow> False
      | Some sc \<Rightarrow> includesStr sc ''keyword'' \<or> includesStr sc ''builtin''
                   \<or> includesStr sc ''storage'')"

subsection \<open>Idempotence of the normalizer\<close>

text \<open>
  A second pass strips again: every line that attains the overall minimum consists of
  spaces only, and some line is longer than the minimum.
\<close>

definition stripsAgain :: "string list \<Rightarrow> string list \<Rightarrow> bool" where
  "stripsAgain c q =
     (case overallMinimum c q of
        None \<Rightarrow> False
      | Some n \<Rightarrow> list_all (\<lambda>l. leadingSpaceCount l = n \<longrightarrow> length l = n) (c @ q)
                  \<and> list_ex (\<lambda>l. n < length l) (c @ q))"

subsection \<open>Example inputs\<close>

definition mkToken :: "string \<Rightarrow> string list \<Rightarrow> int \<Rightarrow> int \<Rightarrow> int \<Rightarrow> Token" where
  "mkToken v scs l a b =
     \<lparr>tok_value = v, scopes = scs, line = l, columns = \<lparr>start = a, end_col = b\<rparr>\<rparr>"

text \<open>The tokens of \<open>foo( let\<close> on line 1 followed by \<open>foo\<close> on line 2, and of \<open>let foo\<close>.\<close>

definition exampleBefore :: "Token list" where
  "exampleBefore =
     [mkToken ''foo'' [''source.js'', ''entity.name.function.js''] 1 1 4,
      mkToken ''('' [''source.js'', ''meta.brace.round.js''] 1 4 5,
      mkToken ''let'' [''source.js'', ''storage.type.js''] 1 6 9,
      mkToken ''foo'' [''source.js'', ''entity.name.function.js''] 2 3 6]"

definition exampleAfter :: "Token list" where
  "exampleAfter =
     [mkToken ''let'' [''source.js'', ''storage.type.js''] 1 1 4,
      mkToken ''foo'' [''source.js'', ''entity.name.function.js''] 1 5 8]"

definition exampleIds :: "Identifier list" where
  "exampleIds = [\<lparr>id_value = ''foo'', scope = Some ''entity.name.function.js''\<rparr>]"

text \<open>
  A tokenizer that knows the two example texts and the empty text of the language
  \<open>javascript\<close>, and cannot tokenize anything else.
\<close>

definition exampleTokenize :: tokenizer where
  "exampleTokenize text lang =
     (if lang \<noteq> ''javascript'' then None
      else if text = ''foo( let'' @ [CHR 0x0A] @ ''  foo'' then Some exampleBefore
      else if text = ''let foo'' then Some exampleAfter
      else if text = [] then Some []
      else None)"

text \<open>
  Three chunks: one that gives a pattern, one whose deleted side is empty, and one in a
  language the tokenizer does not know.
\<close>

definition exampleChunks :: "Chunk list" where
  "exampleChunks =
     [\<lparr>deleted = [''foo( let'', ''  foo''], added = [''let foo''], source = ''javascript''\<rparr>,
      \<lparr>deleted = [], added = [''let foo''], source = ''javascript''\<rparr>,
      \<lparr>deleted = [''foo( let'', ''  foo''], added = [''let foo''], source = ''cobol''\<rparr>]"

definition examplePattern :: Pattern where
  "examplePattern =
     \<lparr>condition = [''${1:entity.name.function.js}( let'', ''  ${1:entity.name.function.js}''],
      consequent = [''let ${1:entity.name.function.js}''],
      identifiers = [''foo'']\<rparr>"

section \<open>The normalizer\<close>

lemma leadingSpaces_takeWhile: "leadingSpaces l = length (takeWhile (\<lambda>c. c = CHR '' '') l)"
  by (induction l) auto

lemma leadingSpaces_le: "leadingSpaces l \<le> length l"
  by (induction l) auto

lemma take_leadingSpaces: "n \<le> leadingSpaces l \<Longrightarrow> take n l = replicate n (CHR '' '')"
proof (induction l arbitrary: n)
  case Nil
  then show ?case by simp
next
  case (Cons c cs)
  then show ?case by (cases n) (auto split: if_splits)
qed

lemma leadingSpaces_drop: "n \<le> leadingSpaces l \<Longrightarrow> leadingSpaces (drop n l) = leadingSpaces l - n"
proof (induction l arbitrary: n)
  case Nil
  then show ?case by simp
next
  case (Cons c cs)
  then show ?case by (cases n) (auto split: if_splits)
qed

lemma leadingSpaces_replicate_append:
  "leadingSpaces (replicate k (CHR '' '') @ l) = k + leadingSpaces l"
  by (induction k) auto

lemma spacesLoop_eq:
  "spacesLoop ls acc = acc @ map leadingSpaces (filter (\<lambda>l. l \<noteq> []) ls)"
  by (induction ls arbitrary: acc) auto

lemma mathMin_append: "mathMin (xs @ ys) = min (mathMin xs) (mathMin ys)"
  by (induction xs) (auto simp: min.assoc)

lemma mathMin_infinity: "mathMin xs = \<infinity> \<longleftrightarrow> xs = []"
  by (induction xs) (auto simp: min_def)

lemma mathMin_Min: "xs \<noteq> [] \<Longrightarrow> mathMin xs = enat (Min (set xs))"
proof (induction xs)
  case Nil
  then show ?case by simp
next
  case (Cons x xs)
  show ?case
  proof (cases "xs = []")
    case True
    then show ?thesis by simp
  next
    case False
    with Cons have "mathMin xs = enat (Min (set xs))" by simp
    with False show ?thesis by (simp add: min_def Min_insert)
  qed
qed

lemma countSpace_eq:
  "countSpace ls = mathMin (map leadingSpaces (filter (\<lambda>l. l \<noteq> []) ls))"
  by (simp add: countSpace_def spacesLoop_eq)

lemma countSpace_append: "min (countSpace c) (countSpace q) = countSpace (c @ q)"
  by (simp add: countSpace_eq mathMin_append)

lemma countSpace_infinity: "countSpace ls = \<infinity> \<longleftrightarrow> (\<forall>l\<in>set ls. l = [])"
  by (auto simp: countSpace_eq mathMin_infinity filter_empty_conv)

lemma countSpace_lower:
  assumes "countSpace ls = enat n" "l \<in> set ls" "l \<noteq> []"
  shows "n \<le> leadingSpaces l"
proof -
  let ?xs = "map leadingSpaces (filter (\<lambda>l. l \<noteq> []) ls)"
  from assms have mem: "leadingSpaces l \<in> set ?xs" by auto
  then have "?xs \<noteq> []" by (auto simp: filter_empty_conv)
  then have "countSpace ls = enat (Min (set ?xs))" by (simp add: countSpace_eq mathMin_Min)
  with assms have "n = Min (set ?xs)" by simp
  with mem show ?thesis by simp
qed

lemma countSpace_attained:
  assumes "countSpace ls = enat n"
  shows "\<exists>l\<in>set ls. l \<noteq> [] \<and> leadingSpaces l = n"
proof -
  let ?xs = "map leadingSpaces (filter (\<lambda>l. l \<noteq> []) ls)"
  from assms have ne: "?xs \<noteq> []" using mathMin_infinity[of ?xs] by (auto simp: countSpace_eq)
  then have "countSpace ls = enat (Min (set ?xs))" by (simp add: countSpace_eq mathMin_Min)
  with assms have "n = Min (set ?xs)" by simp
  moreover have "Min (set ?xs) \<in> set ?xs"
  proof (rule Min_in)
    show "finite (set ?xs)" by simp
    show "set ?xs \<noteq> {}" using ne by (simp del: set_map set_filter)
  qed
  ultimately have "n \<in> set ?xs" by simp
  then show ?thesis by auto
qed

lemma leadingSpaceCount_eq: "leadingSpaceCount = leadingSpaces"
  by (rule ext) (simp add: leadingSpaceCount_def leadingSpaces_takeWhile)

lemma countSpace_sideMinimum:
  "countSpace ls = (case sideMinimum ls of None \<Rightarrow> \<infinity> | Some a \<Rightarrow> enat a)"
proof (cases "filter (\<lambda>l. l \<noteq> []) ls")
  case Nil
  then show ?thesis by (simp add: countSpace_eq sideMinimum_def)
next
  case (Cons x xs)
  then have "map leadingSpaces (filter (\<lambda>l. l \<noteq> []) ls) \<noteq> []" by simp
  from mathMin_Min[OF this] Cons show ?thesis
    by (simp add: countSpace_eq sideMinimum_def leadingSpaceCount_eq)
qed

lemma minSpace_overallMinimum:
  "min (countSpace c) (countSpace q) = (case overallMinimum c q of None \<Rightarrow> \<infinity> | Some n \<Rightarrow> enat n)"
  by (simp add: countSpace_sideMinimum overallMinimum_def split: option.splits)

lemma map_empty_lines: "\<forall>l\<in>set xs. l = [] \<Longrightarrow> map (\<lambda>l. []) xs = xs"
  by (induction xs) auto

lemma formatPatterns_all_empty:
  assumes "min (countSpace c) (countSpace q) = \<infinity>"
  shows "formatPatterns c q = (c, q)"
proof -
  from assms have "countSpace (c @ q) = \<infinity>" by (simp add: countSpace_append)
  then have e: "\<forall>l\<in>set (c @ q). l = []" by (simp only: countSpace_infinity)
  have "map (\<lambda>l. slice l \<infinity>) c = c" "map (\<lambda>l. slice l \<infinity>) q = q"
    using e by (simp_all add: slice_def map_empty_lines)
  with assms show ?thesis by (simp add: formatPatterns_def)
qed

lemma formatPatterns_finite:
  assumes "min (countSpace c) (countSpace q) = enat n"
  shows "formatPatterns c q = (map (drop n) c, map (drop n) q)"
  using assms by (simp add: formatPatterns_def slice_def)

text \<open>
  Claim C6. \<open>formatPatterns\<close> strips from every line of both sides exactly \<open>n\<close> leading
  characters, where \<open>n\<close> is the minimum over both sides of each side's minimum leading-space
  count over its non-empty lines, resolved from the other side when one side has no
  non-empty line; every non-empty line has at least \<open>n\<close> characters and the stripped ones
  are spaces. When both sides consist of empty lines only, both are returned unchanged.
\<close>

theorem formatPatterns_strips_minimum:
  "formatPatterns c q =
     (case overallMinimum c q of
        None \<Rightarrow> (c, q)
      | Some n \<Rightarrow> (map (drop n) c, map (drop n) q))
   \<and> (\<forall>n. overallMinimum c q = Some n \<longrightarrow>
        (\<forall>l\<in>set (c @ q). l \<noteq> [] \<longrightarrow> n \<le> length l \<and> take n l = replicate n (CHR '' '')))"
proof (cases "overallMinimum c q")
  case None
  then have "min (countSpace c) (countSpace q) = \<infinity>" by (simp add: minSpace_overallMinimum)
  from formatPatterns_all_empty[OF this] None show ?thesis by simp
next
  case (Some n)
  then have m: "min (countSpace c) (countSpace q) = enat n" by (simp add: minSpace_overallMinimum)
  then have cs: "countSpace (c @ q) = enat n" by (simp add: countSpace_append)
  have "n \<le> length l \<and> take n l = replicate n (CHR '' '')" if "l \<in> set (c @ q)" "l \<noteq> []" for l
  proof -
    from countSpace_lower[OF cs that] have "n \<le> leadingSpaces l" .
    then show ?thesis using leadingSpaces_le[of l] take_leadingSpaces[of n l] by simp
  qed
  with formatPatterns_finite[OF m] Some show ?thesis by simp
qed

theorem formatPatterns_strips_minimum_witness:
  "overallMinimum [''  a'', '''', ''   b''] [''    c''] = Some 2
   \<and> formatPatterns [''  a'', '''', ''   b''] [''    c''] = ([''a'', '''', '' b''], [''  c''])
   \<and> take 2 ''   b'' = replicate 2 (CHR '' '')"
proof -
  have m: "overallMinimum [''  a'', '''', ''   b''] [''    c''] = Some 2"
    by (simp add: overallMinimum_def sideMinimum_def leadingSpaceCount_def)
  from formatPatterns_strips_minimum[of "[''  a'', '''', ''   b'']" "[''    c'']"] m
  show ?thesis by (simp add: numeral_2_eq_2)
qed

lemma mathMin_shift:
  "mathMin (map (\<lambda>x. k + x) xs) = (if xs = [] then \<infinity> else enat k + mathMin xs)"
proof (induction xs)
  case Nil
  then show ?case by simp
next
  case (Cons x xs)
  then show ?case
    by (cases "mathMin xs") (auto simp: min_def)
qed

lemma indent_nonempty: "indent k l \<noteq> [] \<longleftrightarrow> l \<noteq> []"
  by (simp add: indent_def)

lemma leadingSpaces_indent: "l \<noteq> [] \<Longrightarrow> leadingSpaces (indent k l) = k + leadingSpaces l"
  by (simp add: indent_def leadingSpaces_replicate_append)

lemma spaces_indent:
  "map leadingSpaces (filter (\<lambda>l. l \<noteq> []) (map (indent k) ls))
   = map (\<lambda>x. k + x) (map leadingSpaces (filter (\<lambda>l. l \<noteq> []) ls))"
  by (induction ls) (auto simp: indent_def leadingSpaces_replicate_append)

lemma countSpace_indent:
  "countSpace (map (indent k) ls) = (if countSpace ls = \<infinity> then \<infinity> else enat k + countSpace ls)"
proof -
  let ?xs = "map leadingSpaces (filter (\<lambda>l. l \<noteq> []) ls)"
  have "countSpace (map (indent k) ls) = mathMin (map (\<lambda>x. k + x) ?xs)"
    by (simp only: countSpace_eq spaces_indent)
  also have "\<dots> = (if ?xs = [] then \<infinity> else enat k + mathMin ?xs)"
    by (rule mathMin_shift)
  finally show ?thesis
    using mathMin_infinity[of ?xs] by (simp only: countSpace_eq)
qed

lemma minSpace_indent:
  "min (countSpace (map (indent k) c)) (countSpace (map (indent k) q))
   = (case min (countSpace c) (countSpace q) of enat n \<Rightarrow> enat (k + n) | \<infinity> \<Rightarrow> \<infinity>)"
proof -
  have "min (countSpace (map (indent k) c)) (countSpace (map (indent k) q))
        = countSpace (map (indent k) (c @ q))"
    by (simp add: countSpace_append)
  also have "\<dots> = (if countSpace (c @ q) = \<infinity> then \<infinity> else enat k + countSpace (c @ q))"
    by (rule countSpace_indent)
  finally show ?thesis
    by (simp add: countSpace_append split: enat.splits)
qed

lemma drop_indent: "drop (k + n) (indent k l) = drop n l"
  by (simp add: indent_def)

text \<open>
  Claim C7, amended. Indenting every non-empty line of both sides by the same number of
  spaces, empty lines staying empty, does not change the result of \<open>formatPatterns\<close>.
\<close>

theorem formatPatterns_indent:
  "formatPatterns (map (indent k) c) (map (indent k) q) = formatPatterns c q"
proof (cases "min (countSpace c) (countSpace q)")
  case (enat n)
  then have "min (countSpace (map (indent k) c)) (countSpace (map (indent k) q)) = enat (k + n)"
    by (simp add: minSpace_indent)
  from formatPatterns_finite[OF this] formatPatterns_finite[OF enat]
  show ?thesis by (simp add: drop_indent o_def)
next
  case infinity
  then have "min (countSpace (map (indent k) c)) (countSpace (map (indent k) q)) = \<infinity>"
    by (simp add: minSpace_indent)
  then show ?thesis using infinity by (simp add: formatPatterns_def slice_def)
qed

text \<open>
  Claim C7 as stated fails when the spaces are prepended to an empty line as well: the
  line is then no longer skipped by \<open>countSpace\<close> and lowers the minimum.
\<close>

theorem formatPatterns_indent_counterexample:
  "formatPatterns (map (\<lambda>l. replicate 2 (CHR '' '') @ l) ['''', '' a''])
                  (map (\<lambda>l. replicate 2 (CHR '' '') @ l) ['' b''])
   \<noteq> formatPatterns ['''', '' a''] ['' b'']"
  by (simp add: formatPatterns_def countSpace_def slice_def numeral_2_eq_2)

theorem formatPatterns_indent_witness:
  "formatPatterns (map (indent 2) ['''', '' a'']) (map (indent 2) ['' b'']) = (['''', ''a''], [''b''])
   \<and> formatPatterns ['''', '' a''] ['' b''] = (['''', ''a''], [''b''])"
proof -
  have v: "formatPatterns ['''', '' a''] ['' b''] = (['''', ''a''], [''b''])"
    by (simp add: formatPatterns_def countSpace_def slice_def)
  from formatPatterns_indent[of 2 "['''', '' a'']" "['' b'']"] v show ?thesis
    by simp
qed

lemma countSpace_zero:
  assumes "l \<in> set ls" "l \<noteq> []" "leadingSpaces l = 0"
  shows "countSpace ls = enat 0"
proof (cases "countSpace ls")
  case (enat m)
  from countSpace_lower[OF enat assms(1,2)] assms(3) enat show ?thesis by simp
next
  case infinity
  with assms(1,2) show ?thesis by (simp add: countSpace_infinity)
qed

text \<open>
  Claim C10 as stated fails when the line with the fewest leading spaces consists of spaces
  only: stripping empties it, \<open>countSpace\<close> then skips it, and the second pass strips
  again.
\<close>

theorem formatPatterns_idempotent_counterexample:
  "formatPatterns (fst (formatPatterns ['' '', ''  a''] [])) (snd (formatPatterns ['' '', ''  a''] []))
   \<noteq> formatPatterns ['' '', ''  a''] []"
  by (simp add: formatPatterns_def countSpace_def slice_def)

section \<open>The unifier\<close>

lemma asIdentifier_eq:
  "asIdentifier t = i \<longleftrightarrow> tok_value t = id_value i \<and> innermost t = scope i"
  by (cases i) (auto simp: asIdentifier_def)

lemma asIdentifier_mem:
  "asIdentifier t \<in> set ids \<longleftrightarrow> (\<exists>i\<in>set ids. tok_value t = id_value i \<and> innermost t = scope i)"
proof
  assume "asIdentifier t \<in> set ids"
  then show "\<exists>i\<in>set ids. tok_value t = id_value i \<and> innermost t = scope i"
    using asIdentifier_eq[of t "asIdentifier t"] by blast
next
  assume "\<exists>i\<in>set ids. tok_value t = id_value i \<and> innermost t = scope i"
  then obtain i where "i \<in> set ids" "asIdentifier t = i"
    using asIdentifier_eq[of t] by blast
  then show "asIdentifier t \<in> set ids" by simp
qed

lemma checkLoop_None: "checkLoop ids t k = None \<longleftrightarrow> asIdentifier t \<notin> set ids"
  by (induction ids arbitrary: k) (auto simp: asIdentifier_def)

lemma checkInIdentifiers_None: "checkInIdentifiers ids t = None \<longleftrightarrow> asIdentifier t \<notin> set ids"
  by (simp add: checkInIdentifiers_def checkLoop_None)

lemma checkLoop_Some:
  "checkLoop ids t k = Some j \<Longrightarrow> k \<le> j \<and> j < k + length ids \<and> ids ! (j - k) = asIdentifier t"
proof (induction ids arbitrary: k)
  case Nil
  then show ?case by simp
next
  case (Cons i ids)
  show ?case
  proof (cases "tok_value t = id_value i \<and> innermost t = scope i")
    case True
    with Cons.prems show ?thesis by (auto simp: asIdentifier_def)
  next
    case False
    with Cons.prems have "checkLoop ids t (Suc k) = Some j" by auto
    from Cons.IH[OF this] show ?thesis by (auto simp: Suc_diff_le)
  qed
qed

lemma checkInIdentifiers_Some:
  assumes "checkInIdentifiers ids t = Some i"
  shows "1 \<le> i \<and> i \<le> length ids \<and> ids ! (i - 1) = asIdentifier t"
  using checkLoop_Some[of ids t 1 i] assms by (auto simp: checkInIdentifiers_def)

lemma isAbstractable_Inr: "isAbstractable b = Inr v \<Longrightarrow> v = abstractable b"
  by (auto simp: abstractable_def)

lemma isAbstractable_scoped: "scopes b \<noteq> [] \<Longrightarrow> isAbstractable b = Inr (abstractable b)"
  by (auto simp: abstractable_def isAbstractable_def innermost_def)

lemma abstractable_scope:
  assumes "abstractable b"
  shows "\<exists>sc. innermost b = Some sc \<and> \<not> includesStr sc ''keyword''
            \<and> \<not> includesStr sc ''builtin'' \<and> \<not> includesStr sc ''storage''"
  using assms by (auto simp: abstractable_def isAbstractable_def split: if_splits option.splits)

lemma innerLoop_Inr:
  "innerLoop b as ids = Inr ids' \<Longrightarrow> ids' = scanInner b as ids"
proof (induction as arbitrary: ids)
  case Nil
  then show ?case by (simp add: scanInner_def)
next
  case (Cons a as)
  show ?case
  proof (cases "tok_value b = tok_value a \<and> innermost b = innermost a
                \<and> checkInIdentifiers ids b = None")
    case True
    show ?thesis
    proof (cases "isAbstractable b")
      case (Inl e)
      with True Cons.prems show ?thesis by simp
    next
      case (Inr ok)
      let ?ids = "if ok then ids @ [\<lparr>id_value = tok_value b, scope = innermost b\<rparr>] else ids"
      from True Inr Cons.prems have "innerLoop b as ?ids = Inr ids'" by simp
      from Cons.IH[OF this] have "ids' = scanInner b as ?ids" .
      moreover have "pairMatches ids b a = ok"
        using True isAbstractable_Inr[OF Inr]
        by (auto simp: pairMatches_def checkInIdentifiers_None)
      ultimately show ?thesis by (simp add: scanInner_def asIdentifier_def)
    qed
  next
    case False
    with Cons.prems have "innerLoop b as ids = Inr ids'" by auto
    from Cons.IH[OF this] have "ids' = scanInner b as ids" .
    moreover have "\<not> pairMatches ids b a"
      using False by (auto simp: pairMatches_def checkInIdentifiers_None)
    ultimately show ?thesis by (simp add: scanInner_def)
  qed
qed

lemma innerLoop_scoped:
  assumes "scopes b \<noteq> []"
  shows "\<exists>ids'. innerLoop b as ids = Inr ids'"
  by (induction as arbitrary: ids) (auto simp: isAbstractable_scoped[OF assms])

lemma outerLoop_Inr:
  "outerLoop bs as ids = Inr ids' \<Longrightarrow> ids' = fold (\<lambda>b acc. scanInner b as acc) bs ids"
proof (induction bs arbitrary: ids)
  case Nil
  then show ?case by simp
next
  case (Cons b bs)
  then show ?case
    by (cases "innerLoop b as ids") (auto dest: innerLoop_Inr)
qed

lemma outerLoop_scoped:
  assumes "\<forall>b\<in>set bs. scopes b \<noteq> []"
  shows "\<exists>ids'. outerLoop bs as ids = Inr ids'"
  using assms
proof (induction bs arbitrary: ids)
  case Nil
  then show ?case by simp
next
  case (Cons b bs)
  then have "scopes b \<noteq> []" by simp
  from innerLoop_scoped[OF this, of as ids] obtain ids1 where "innerLoop b as ids = Inr ids1" by blast
  moreover from Cons have "\<exists>ids'. outerLoop bs as ids1 = Inr ids'" by simp
  ultimately show ?case by simp
qed

lemma unifyScan_fold: "unifyScan before after = fold (\<lambda>b acc. scanInner b after acc) before []"
  by (simp add: unifyScan_def)

lemma collect_Inr: "collectCommonIdentifiers before after = Inr ids \<Longrightarrow> ids = unifyScan before after"
  by (simp add: collectCommonIdentifiers_def unifyScan_fold outerLoop_Inr)

lemma collect_scoped:
  assumes "\<forall>b\<in>set before. scopes b \<noteq> []"
  shows "collectCommonIdentifiers before after = Inr (unifyScan before after)"
proof -
  from outerLoop_scoped[OF assms, of after "[]"] obtain ids
    where "collectCommonIdentifiers before after = Inr ids"
    by (auto simp: collectCommonIdentifiers_def)
  with collect_Inr[OF this] show ?thesis by simp
qed

lemma scanInner_closed:
  "scanInner b as acc =
     (if sharedToken as b \<and> abstractable b \<and> asIdentifier b \<notin> set acc
      then acc @ [asIdentifier b] else acc)"
proof (induction as arbitrary: acc)
  case Nil
  then show ?case by (simp add: scanInner_def sharedToken_def)
next
  case (Cons a as)
  have step: "scanInner b (a # as) acc
              = scanInner b as (if pairMatches acc b a then acc @ [asIdentifier b] else acc)"
    by (simp add: scanInner_def)
  show ?case
    unfolding step Cons.IH
    by (auto simp: pairMatches_def sharedToken_def)
qed

lemma firstOccurrences_cong:
  "set s1 = set s2 \<Longrightarrow> firstOccurrences s1 xs = firstOccurrences s2 xs"
proof (induction xs arbitrary: s1 s2)
  case Nil
  then show ?case by simp
next
  case (Cons x xs)
  from Cons.prems have "set (x # s1) = set (x # s2)" by simp
  from Cons.IH[OF this] Cons.IH[OF Cons.prems] Cons.prems show ?case by simp
qed

lemma firstOccurrences_set: "set (firstOccurrences seen xs) = set xs - set seen"
  by (induction xs arbitrary: seen) auto


lemma fold_scanInner:
  "fold (\<lambda>b acc. scanInner b as acc) bs acc
   = acc @ firstOccurrences acc
       (map asIdentifier (filter (\<lambda>b. abstractable b \<and> sharedToken as b) bs))"
proof (induction bs arbitrary: acc)
  case Nil
  then show ?case by simp
next
  case (Cons b bs)
  have cong: "firstOccurrences (acc @ [asIdentifier b]) ys = firstOccurrences (asIdentifier b # acc) ys" for ys
    by (rule firstOccurrences_cong) simp
  have "fold (\<lambda>b acc. scanInner b as acc) (b # bs) acc
        = fold (\<lambda>b acc. scanInner b as acc) bs (scanInner b as acc)"
    by simp
  also have "\<dots> = scanInner b as acc @ firstOccurrences (scanInner b as acc)
       (map asIdentifier (filter (\<lambda>b. abstractable b \<and> sharedToken as b) bs))"
    by (rule Cons.IH)
  also have "\<dots> = acc @ firstOccurrences acc
       (map asIdentifier (filter (\<lambda>b. abstractable b \<and> sharedToken as b) (b # bs)))"
    by (simp add: scanInner_closed cong)
  finally show ?case .
qed

lemma unifyScan_closed:
  "unifyScan before after
   = firstOccurrences [] (map asIdentifier (filter (\<lambda>b. abstractable b \<and> sharedToken after b) before))"
  by (simp add: unifyScan_fold fold_scanInner)

lemma unifyScan_members:
  assumes "i \<in> set (unifyScan before after)"
  shows "\<exists>b\<in>set before. abstractable b \<and> sharedToken after b \<and> i = asIdentifier b"
  using assms by (auto simp: unifyScan_closed firstOccurrences_set)





section \<open>The driver\<close>


lemma diffLoop_Inr:
  "diffLoop tokenize cs acc = Inr ps \<Longrightarrow> ps = acc @ concat (map (chunkPatterns tokenize) cs)"
proof (induction cs arbitrary: acc)
  case Nil
  then show ?case by simp
next
  case (Cons c cs)
  show ?case
  proof (cases "makePatternsFromChunk tokenize c")
    case (Inl e)
    with Cons.prems show ?thesis by simp
  next
    case (Inr r)
    show ?thesis
    proof (cases r)
      case None
      with Inr Cons.prems have "diffLoop tokenize cs acc = Inr ps" by simp
      from Cons.IH[OF this] Inr None show ?thesis by (simp add: chunkPatterns_def)
    next
      case (Some p)
      let ?acc = "if \<not> isEmptyPattern (condition p) \<and> \<not> isEmptyPattern (consequent p)
                  then acc @ [p] else acc"
      from Inr Some Cons.prems have "diffLoop tokenize cs ?acc = Inr ps" by simp
      from Cons.IH[OF this] Inr Some show ?thesis by (simp add: chunkPatterns_def)
    qed
  qed
qed

lemma chunkPatterns_members:
  "p \<in> set (chunkPatterns tokenize c) \<Longrightarrow>
     \<not> isEmptyPattern (condition p) \<and> \<not> isEmptyPattern (consequent p)"
  by (auto simp: chunkPatterns_def split: sum.splits option.splits if_splits)

text \<open>
  Claim C8. The list that \<open>makePatternsFromDiff\<close> returns contains no pattern whose
  condition or consequent is the degenerate empty pattern (exactly one line, the empty
  string); it is the chunks' patterns in chunk order, without the undefined and the
  degenerate ones.
\<close>

theorem makePatternsFromDiff_drops_degenerate:
  assumes "makePatternsFromDiff tokenize makeDiffObj diff = Inr ps"
  shows "(\<forall>p\<in>set ps. \<not> isEmptyPattern (condition p) \<and> \<not> isEmptyPattern (consequent p))
         \<and> ps = concat (map (chunkPatterns tokenize) (makeDiffObj diff))"
proof -
  from assms have ps: "ps = concat (map (chunkPatterns tokenize) (makeDiffObj diff))"
    using diffLoop_Inr[of tokenize "makeDiffObj diff" "[]" ps]
    by (simp add: makePatternsFromDiff_def)
  then have "\<forall>p\<in>set ps. \<not> isEmptyPattern (condition p) \<and> \<not> isEmptyPattern (consequent p)"
    using chunkPatterns_members by auto
  with ps show ?thesis by simp
qed

theorem makePatternsFromDiff_drops_degenerate_witness:
  "makePatternsFromDiff exampleTokenize (\<lambda>d. exampleChunks) ''a diff'' = Inr [examplePattern]
   \<and> makePatternsFromChunk exampleTokenize (exampleChunks ! 1)
       = Inr (Some \<lparr>condition = [''''], consequent = [''let foo''], identifiers = []\<rparr>)
   \<and> makePatternsFromChunk exampleTokenize (exampleChunks ! 2) = Inr None
   \<and> \<not> isEmptyPattern (condition examplePattern)
   \<and> \<not> isEmptyPattern (consequent examplePattern)
   \<and> [examplePattern] = concat (map (chunkPatterns exampleTokenize) exampleChunks)"
proof -
  have v: "makePatternsFromDiff exampleTokenize (\<lambda>d. exampleChunks) ''a diff'' = Inr [examplePattern]"
    by code_simp
  have c1: "makePatternsFromChunk exampleTokenize (exampleChunks ! 1)
       = Inr (Some \<lparr>condition = [''''], consequent = [''let foo''], identifiers = []\<rparr>)"
    by code_simp
  have c2: "makePatternsFromChunk exampleTokenize (exampleChunks ! 2) = Inr None"
    by code_simp
  note r = makePatternsFromDiff_drops_degenerate[OF v]
  from r have e: "\<not> isEmptyPattern (condition examplePattern)
                  \<and> \<not> isEmptyPattern (consequent examplePattern)" by simp
  from r have l: "[examplePattern] = concat (map (chunkPatterns exampleTokenize) exampleChunks)"
    by blast
  from v c1 c2 e l show ?thesis by blast
qed

section \<open>The abstractable predicate\<close>

lemma firstAlternative_iff: "firstAlternative v \<longleftrightarrow> (\<exists>c rest. v = c # rest \<and> isLetter c)"
  by (cases v) (auto simp: firstAlternative_def)

lemma secondAlternative_iff:
  "secondAlternative v \<longleftrightarrow> (\<exists>pre ds. v = pre @ ds \<and> ds \<noteq> [] \<and> list_all isDigit ds)"
proof
  assume "secondAlternative v"
  then obtain c cs where "rev v = c # cs" "isDigit c"
    by (cases "rev v") (auto simp: secondAlternative_def)
  then have "v = rev cs @ [c]" "isDigit c" by (auto simp: rev_swap)
  then show "\<exists>pre ds. v = pre @ ds \<and> ds \<noteq> [] \<and> list_all isDigit ds"
    by (intro exI[of _ "rev cs"] exI[of _ "[c]"]) simp
next
  assume "\<exists>pre ds. v = pre @ ds \<and> ds \<noteq> [] \<and> list_all isDigit ds"
  then obtain pre ds where v: "v = pre @ ds" "ds \<noteq> []" "list_all isDigit ds" by blast
  from v(2) obtain d ds' where ds: "ds = ds' @ [d]" by (cases ds rule: rev_cases) auto
  with v(3) have "isDigit d" by simp
  with v(1) ds show "secondAlternative v" by (simp add: secondAlternative_def)
qed

lemma identifierShaped_isAlphanumeric: "identifierShaped v \<Longrightarrow> isAlphanumeric v"
proof -
  assume s: "identifierShaped v"
  show ?thesis
  proof (cases v)
    case Nil
    with s show ?thesis by (simp add: identifierShaped_def)
  next
    case (Cons c cs)
    show ?thesis
    proof (cases "isLetter c")
      case True
      with Cons show ?thesis by (simp add: isAlphanumeric_def firstAlternative_def)
    next
      case False
      with s Cons have "list_all isDigit v" by (simp add: identifierShaped_def)
      moreover have "v = [] @ v" "v \<noteq> []" using Cons by simp_all
      ultimately have "secondAlternative v" unfolding secondAlternative_iff by blast
      then show ?thesis by (simp add: isAlphanumeric_def)
    qed
  qed
qed

text \<open>
  Claim C2. The code's predicate is not the one of the claim: the alternation of the
  regular expression leaves \<open>^\<close> on the first alternative and \<open>$\<close> on the second only,
  so a value that merely starts with a letter, or merely ends in a digit, passes. The
  content \<open>hello world\<close> of a string literal and the text \<open>+1\<close> are abstractable for
  the code, and neither is an alphanumeric string starting with a letter or a digit run.
\<close>

theorem isAbstractable_prefix_or_suffix:
  "isAbstractable (mkToken ''hello world'' [''source.js'', ''string.quoted.double.js''] 1 2 13) = Inr True
   \<and> \<not> identifierShaped ''hello world''
   \<and> isAbstractable (mkToken ''+1'' [''source.js'', ''comment.line.double-slash.js''] 1 3 5) = Inr True
   \<and> \<not> identifierShaped ''+1''"
  by (simp add: isAbstractable_def isAlphanumeric_def firstAlternative_def secondAlternative_def
      mkToken_def innermost_def identifierShaped_def isLetter_def isDigit_def isAlnum_def)

section \<open>The abstractor\<close>

lemma abstractLoop_same:
  assumes "pl = 0 \<or> pl = line t"
  shows "abstractLoop ids (t # rest) ps pos pl lc =
           (case repeatSpace (start (columns t) - pos) of
              Inl e \<Rightarrow> Inl e
            | Inr gap \<Rightarrow>
                abstractLoop ids rest ps (end_col (columns t)) (line t) (lc @ gap @ tokenText ids t))"
  using assms by (auto simp: Let_def split: sum.splits)

lemma abstractLoop_new:
  assumes "pl \<noteq> 0" "pl \<noteq> line t"
  shows "abstractLoop ids (t # rest) ps pos pl lc =
           (case repeatSpace (start (columns t) - 1) of
              Inl e \<Rightarrow> Inl e
            | Inr gap \<Rightarrow>
                abstractLoop ids rest (ps @ [lc]) (end_col (columns t)) (line t)
                  (gap @ tokenText ids t))"
  using assms by (auto simp: Let_def split: sum.splits)

lemma repeatSpace_Inr: "0 \<le> n \<Longrightarrow> repeatSpace n = Inr (replicate (nat n) (CHR '' ''))"
  by (simp add: repeatSpace_def)

lemma abstractLoop_returns:
  assumes "list_all (\<lambda>t. line t \<noteq> 0 \<and> 1 \<le> start (columns t)) ts"
    and "successively leftToRight ts"
    and "ts \<noteq> [] \<longrightarrow> (pl = 0 \<or> pl = line (hd ts)) \<longrightarrow> pos \<le> start (columns (hd ts))"
  shows "\<exists>ls. abstractLoop ids ts ps pos pl lc = Inr ls"
  using assms
proof (induction ts arbitrary: ps pos pl lc)
  case Nil
  then show ?case by simp
next
  case (Cons t rest)
  from Cons.prems(1) have t: "line t \<noteq> 0" "1 \<le> start (columns t)"
    and r1: "list_all (\<lambda>t. line t \<noteq> 0 \<and> 1 \<le> start (columns t)) rest" by simp_all
  from Cons.prems(2) have r2: "successively leftToRight rest"
    by (cases rest) simp_all
  have r3: "rest \<noteq> [] \<longrightarrow> (line t = 0 \<or> line t = line (hd rest))
              \<longrightarrow> end_col (columns t) \<le> start (columns (hd rest))"
    using Cons.prems(2) t(1) by (cases rest) (auto simp: leftToRight_def)
  note IH = Cons.IH[OF r1 r2 r3]
  show ?case
  proof (cases "pl = 0 \<or> pl = line t")
    case True
    with Cons.prems(3) have "0 \<le> start (columns t) - pos" by simp
    from repeatSpace_Inr[OF this] IH show ?thesis
      by (simp add: abstractLoop_same[OF True] del: abstractLoop.simps)
  next
    case False
    then have f: "pl \<noteq> 0" "pl \<noteq> line t" by simp_all
    from t(2) have "0 \<le> start (columns t) - 1" by simp
    from repeatSpace_Inr[OF this] IH show ?thesis
      by (simp add: abstractLoop_new[OF f] del: abstractLoop.simps)
  qed
qed

lemma makeAbstractedCode_returns:
  assumes "wellFormedTokens ts"
  shows "\<exists>ls. makeAbstractedCode ts ids = Inr ls"
proof -
  from assms have a: "list_all (\<lambda>t. line t \<noteq> 0 \<and> 1 \<le> start (columns t)) ts"
    and b: "successively leftToRight ts"
    by (auto simp: wellFormedTokens_def list_all_iff)
  have c: "ts \<noteq> [] \<longrightarrow> ((0::int) = 0 \<or> 0 = line (hd ts)) \<longrightarrow> 1 \<le> start (columns (hd ts))"
    using a by (cases ts) auto
  from abstractLoop_returns[OF a b c] show ?thesis by (simp add: makeAbstractedCode_def)
qed

lemma wellFormedTokens_scoped: "wellFormedTokens ts \<Longrightarrow> \<forall>t\<in>set ts. scopes t \<noteq> []"
  by (auto simp: wellFormedTokens_def list_all_iff)

lemma core_returns:
  assumes "wellFormedTokens before" "wellFormedTokens after"
  shows "\<exists>ids cp qp. collectCommonIdentifiers before after = Inr ids
           \<and> makeAbstractedCode before ids = Inr cp \<and> makeAbstractedCode after ids = Inr qp"
  using collect_scoped[OF wellFormedTokens_scoped[OF assms(1)], of after]
    makeAbstractedCode_returns[OF assms(1)] makeAbstractedCode_returns[OF assms(2)]
  by blast

lemma makePatterns_returns:
  assumes "\<forall>text lang ts. tokenize text lang = Some ts \<longrightarrow> wellFormedTokens ts"
  shows "\<exists>r. makePatterns tokenize before after src = Inr r"
proof (cases "\<exists>b a s bts ats. before = Some b \<and> after = Some a \<and> src = Some s
                \<and> tokenize b s = Some bts \<and> tokenize a s = Some ats")
  case True
  then obtain b a s bts ats where e: "before = Some b" "after = Some a" "src = Some s"
    "tokenize b s = Some bts" "tokenize a s = Some ats" by blast
  with assms have "wellFormedTokens bts" "wellFormedTokens ats" by blast+
  from core_returns[OF this] obtain ids cp qp where
    "collectCommonIdentifiers bts ats = Inr ids" "makeAbstractedCode bts ids = Inr cp"
    "makeAbstractedCode ats ids = Inr qp" by blast
  with e show ?thesis by (simp add: makePatterns_def split: prod.splits)
next
  case False
  then show ?thesis
    by (auto simp: makePatterns_def split: option.splits)
qed

lemma diffLoop_returns:
  assumes "\<forall>text lang ts. tokenize text lang = Some ts \<longrightarrow> wellFormedTokens ts"
  shows "\<exists>ps. diffLoop tokenize cs acc = Inr ps"
proof (induction cs arbitrary: acc)
  case Nil
  then show ?case by simp
next
  case (Cons c cs)
  from makePatterns_returns[OF assms] obtain r
    where "makePatternsFromChunk tokenize c = Inr r"
    unfolding makePatternsFromChunk_def by blast
  with Cons show ?case by (cases r) simp_all
qed

lemma abstractLoop_same_line:
  "abstractLoop ids (t # rest) ps pos (line t) lc =
     (case repeatSpace (start (columns t) - pos) of
        Inl e \<Rightarrow> Inl e
      | Inr gap \<Rightarrow>
          abstractLoop ids rest ps (end_col (columns t)) (line t) (lc @ gap @ tokenText ids t))"
  by (rule abstractLoop_same) simp

lemma abstractLoop_first:
  "abstractLoop ids (t # rest) ps pos 0 lc =
     (case repeatSpace (start (columns t) - pos) of
        Inl e \<Rightarrow> Inl e
      | Inr gap \<Rightarrow>
          abstractLoop ids rest ps (end_col (columns t)) (line t) (lc @ gap @ tokenText ids t))"
  by (rule abstractLoop_same) simp

lemma abstractLoop_prefix:
  "abstractLoop ids ts ps pos pl lc = Inr ls \<Longrightarrow> take (length ps) ls = ps"
proof (induction ts arbitrary: ps pos pl lc)
  case Nil
  then show ?case by auto
next
  case (Cons t rest)
  show ?case
  proof (cases "pl = 0 \<or> pl = line t")
    case True
    from Cons.prems obtain gap where
      "abstractLoop ids rest ps (end_col (columns t)) (line t) (lc @ gap @ tokenText ids t) = Inr ls"
      unfolding abstractLoop_same[OF True] by (auto split: sum.splits)
    from Cons.IH[OF this] show ?thesis .
  next
    case False
    then have f: "pl \<noteq> 0" "pl \<noteq> line t" by simp_all
    from Cons.prems obtain gap where
      "abstractLoop ids rest (ps @ [lc]) (end_col (columns t)) (line t) (gap @ tokenText ids t) = Inr ls"
      unfolding abstractLoop_new[OF f] by (auto split: sum.splits)
    from Cons.IH[OF this] have "take (Suc (length ps)) ls = ps @ [lc]" by simp
    then have "take (length ps) (take (Suc (length ps)) ls) = take (length ps) (ps @ [lc])" by simp
    then show ?thesis by (simp add: min_def)
  qed
qed

lemma abstractLoop_length:
  assumes "pl \<noteq> 0" "\<forall>t\<in>set ts. line t \<noteq> 0" "abstractLoop ids ts ps pos pl lc = Inr ls"
  shows "length ls = length ps + length (remdups_adj (pl # map line ts))"
  using assms
proof (induction ts arbitrary: ps pos pl lc)
  case Nil
  then show ?case by auto
next
  case (Cons t rest)
  from Cons.prems(2) have t0: "line t \<noteq> 0" and r0: "\<forall>t\<in>set rest. line t \<noteq> 0" by simp_all
  show ?case
  proof (cases "pl = line t")
    case True
    then have s: "pl = 0 \<or> pl = line t" by simp
    from Cons.prems(3) obtain gap where
      "abstractLoop ids rest ps (end_col (columns t)) (line t) (lc @ gap @ tokenText ids t) = Inr ls"
      unfolding abstractLoop_same[OF s] by (auto split: sum.splits)
    from Cons.IH[OF t0 r0 this] True show ?thesis by simp
  next
    case False
    from Cons.prems(3) obtain gap where
      "abstractLoop ids rest (ps @ [lc]) (end_col (columns t)) (line t) (gap @ tokenText ids t) = Inr ls"
      unfolding abstractLoop_new[OF Cons.prems(1) False] by (auto split: sum.splits)
    from Cons.IH[OF t0 r0 this] False show ?thesis by simp
  qed
qed

lemma distinct_remdups_adj_sorted:
  fixes xs :: "int list"
  shows "sorted xs \<Longrightarrow> distinct (remdups_adj xs)"
proof (induction xs rule: remdups_adj.induct)
  case 1
  then show ?case by simp
next
  case (2 x)
  then show ?case by simp
next
  case (3 x y xs)
  then show ?case by (cases "x = y") auto
qed

lemma remdups_adj_hd_notin_tl:
  fixes xs :: "int list"
  assumes "sorted (x # xs)"
  shows "x \<notin> set (tl (remdups_adj (x # xs)))"
proof -
  from distinct_remdups_adj_sorted[OF assms] have "distinct (remdups_adj (x # xs))" .
  then show ?thesis by (metis remdups_adj_Cons_alt distinct.simps(2))
qed

lemma filter_line_above:
  assumes "\<forall>u\<in>set ts. pl < line u"
  shows "filter (\<lambda>u. line u = pl) ts = []"
  using assms by (induction ts) auto

lemma abstractLoop_current_line:
  assumes "pl \<noteq> 0" "sorted (map line ts)" "\<forall>t\<in>set ts. pl \<le> line t"
    and "abstractLoop ids ts ps pos pl lc = Inr ls"
  shows "abstractLoop ids (filter (\<lambda>u. line u = pl) ts) [] pos pl lc = Inr [ls ! length ps]"
  using assms
proof (induction ts arbitrary: ps pos lc)
  case Nil
  then show ?case by auto
next
  case (Cons t rest)
  from Cons.prems(2) have sr: "sorted (map line rest)" and le: "\<forall>u\<in>set rest. line t \<le> line u"
    by simp_all
  show ?case
  proof (cases "pl = line t")
    case True
    then have s: "pl = 0 \<or> pl = line t" by simp
    from Cons.prems(4) obtain gap where g: "repeatSpace (start (columns t) - pos) = Inr gap"
      and r: "abstractLoop ids rest ps (end_col (columns t)) (line t) (lc @ gap @ tokenText ids t) = Inr ls"
      unfolding abstractLoop_same[OF s] by (auto split: sum.splits)
    from True le have le': "\<forall>u\<in>set rest. pl \<le> line u" by simp
    from r True have r': "abstractLoop ids rest ps (end_col (columns t)) pl (lc @ gap @ tokenText ids t) = Inr ls"
      by simp
    from Cons.IH[OF Cons.prems(1) sr le' r']
    have "abstractLoop ids (filter (\<lambda>u. line u = pl) rest) [] (end_col (columns t)) pl
            (lc @ gap @ tokenText ids t) = Inr [ls ! length ps]" .
    moreover have "filter (\<lambda>u. line u = pl) (t # rest) = t # filter (\<lambda>u. line u = pl) rest"
      using True by simp
    ultimately show ?thesis
      using g True by (simp add: abstractLoop_same_line del: abstractLoop.simps)
  next
    case False
    from Cons.prems(4) obtain gap where
      r: "abstractLoop ids rest (ps @ [lc]) (end_col (columns t)) (line t) (gap @ tokenText ids t) = Inr ls"
      unfolding abstractLoop_new[OF Cons.prems(1) False] by (auto split: sum.splits)
    from abstractLoop_prefix[OF r] have "take (Suc (length ps)) ls = ps @ [lc]" by simp
    then have "take (Suc (length ps)) ls ! length ps = (ps @ [lc]) ! length ps" by simp
    then have e: "ls ! length ps = lc" by simp
    from False Cons.prems(3) le have "\<forall>u\<in>set (t # rest). pl < line u" by fastforce
    from filter_line_above[OF this] e show ?thesis by simp
  qed
qed

lemma makeAbstractedCode_first_line:
  assumes "line t \<noteq> 0" "sorted (map line (t # rest))"
    and "repeatSpace (start (columns t) - 1) = Inr gap"
    and "abstractLoop ids rest ps (end_col (columns t)) (line t) (gap @ tokenText ids t) = Inr ls"
  shows "makeAbstractedCode (filter (\<lambda>u. line u = line t) (t # rest)) ids = Inr [ls ! length ps]"
proof -
  from assms(2) have sr: "sorted (map line rest)" and le: "\<forall>u\<in>set rest. line t \<le> line u"
    by simp_all
  from abstractLoop_current_line[OF assms(1) sr le assms(4)]
  have "abstractLoop ids (filter (\<lambda>u. line u = line t) rest) [] (end_col (columns t)) (line t)
          (gap @ tokenText ids t) = Inr [ls ! length ps]" .
  then show ?thesis
    using assms(3) by (simp add: makeAbstractedCode_def abstractLoop_first del: abstractLoop.simps)
qed

lemma abstractLoop_later_lines:
  assumes "pl \<noteq> 0" "sorted (map line ts)" "\<forall>t\<in>set ts. pl \<le> line t \<and> line t \<noteq> 0"
    and "abstractLoop ids ts ps pos pl lc = Inr ls"
  shows "map (\<lambda>L. makeAbstractedCode (filter (\<lambda>u. line u = L) ts) ids)
             (tl (remdups_adj (pl # map line ts)))
         = map (\<lambda>e. Inr [e]) (drop (Suc (length ps)) ls)"
  using assms
proof (induction ts arbitrary: ps pos pl lc)
  case Nil
  then show ?case by auto
next
  case (Cons t rest)
  from Cons.prems(2) have sr: "sorted (map line rest)" and le: "\<forall>u\<in>set rest. line t \<le> line u"
    by simp_all
  from Cons.prems(3) have t0: "line t \<noteq> 0" and r0: "\<forall>u\<in>set rest. line u \<noteq> 0"
    and plt: "pl \<le> line t" by simp_all
  from le r0 have le0: "\<forall>u\<in>set rest. line t \<le> line u \<and> line u \<noteq> 0" by simp
  let ?Ls = "tl (remdups_adj (line t # map line rest))"
  have st: "sorted (line t # map line rest)" using Cons.prems(2) by simp
  have notin: "line t \<notin> set ?Ls" by (rule remdups_adj_hd_notin_tl[OF st])
  have tail: "map (\<lambda>L. makeAbstractedCode (filter (\<lambda>u. line u = L) (t # rest)) ids) ?Ls
              = map (\<lambda>L. makeAbstractedCode (filter (\<lambda>u. line u = L) rest) ids) ?Ls"
    using notin by (intro map_cong) auto
  show ?case
  proof (cases "pl = line t")
    case True
    then have s: "pl = 0 \<or> pl = line t" by simp
    from Cons.prems(4) obtain gap where
      r: "abstractLoop ids rest ps (end_col (columns t)) (line t) (lc @ gap @ tokenText ids t) = Inr ls"
      unfolding abstractLoop_same[OF s] by (auto split: sum.splits)
    have "tl (remdups_adj (pl # map line (t # rest))) = ?Ls" using True by simp
    with Cons.IH[OF t0 sr le0 r] tail show ?thesis by (simp only:)
  next
    case False
    from Cons.prems(4) obtain gap where g: "repeatSpace (start (columns t) - 1) = Inr gap"
      and r: "abstractLoop ids rest (ps @ [lc]) (end_col (columns t)) (line t) (gap @ tokenText ids t) = Inr ls"
      unfolding abstractLoop_new[OF Cons.prems(1) False] by (auto split: sum.splits)
    have Ls: "tl (remdups_adj (pl # map line (t # rest))) = line t # ?Ls"
      using False by simp
    from abstractLoop_length[OF t0 r0 r]
    have len: "length ls = Suc (length ps) + length (remdups_adj (line t # map line rest))" by simp
    moreover have "length (remdups_adj (line t # map line rest)) \<ge> 1"
      by (metis list.distinct(1) remdups_adj_length_ge1 One_nat_def)
    ultimately have lt: "Suc (length ps) < length ls" by simp
    have dr: "drop (Suc (length ps)) ls = ls ! Suc (length ps) # drop (Suc (Suc (length ps))) ls"
      using lt by (simp add: Cons_nth_drop_Suc)
    from makeAbstractedCode_first_line[OF t0 Cons.prems(2) g r]
    have hd: "makeAbstractedCode (filter (\<lambda>u. line u = line t) (t # rest)) ids
              = Inr [ls ! Suc (length ps)]" by simp
    from Cons.IH[OF t0 sr le0 r]
    have "map (\<lambda>L. makeAbstractedCode (filter (\<lambda>u. line u = L) rest) ids) ?Ls
          = map (\<lambda>e. Inr [e]) (drop (Suc (Suc (length ps))) ls)" by simp
    with tail have tl: "map (\<lambda>L. makeAbstractedCode (filter (\<lambda>u. line u = L) (t # rest)) ids) ?Ls
          = map (\<lambda>e. Inr [e]) (drop (Suc (Suc (length ps))) ls)" by (simp only:)
    have "map (\<lambda>L. makeAbstractedCode (filter (\<lambda>u. line u = L) (t # rest)) ids) (line t # ?Ls)
          = map (\<lambda>e. Inr [e]) (ls ! Suc (length ps) # drop (Suc (Suc (length ps))) ls)"
      by (simp only: list.map hd tl)
    then show ?thesis by (simp only: Ls dr[symmetric])
  qed
qed

lemma makeAbstractedCode_lines:
  assumes "tokens \<noteq> []" "sorted (map line tokens)" "\<forall>t\<in>set tokens. line t \<noteq> 0"
    and "makeAbstractedCode tokens ids = Inr ls"
  shows "length ls = length (remdups_adj (map line tokens))"
    and "map (\<lambda>L. makeAbstractedCode (filter (\<lambda>u. line u = L) tokens) ids)
             (remdups_adj (map line tokens))
         = map (\<lambda>e. Inr [e]) ls"
proof -
  from assms(1) obtain t rest where tk: "tokens = t # rest" by (cases tokens) auto
  from assms(2,3) tk have sr: "sorted (map line rest)" and le: "\<forall>u\<in>set rest. line t \<le> line u"
    and t0: "line t \<noteq> 0" and r0: "\<forall>u\<in>set rest. line u \<noteq> 0"
    and st: "sorted (map line (t # rest))" by simp_all
  from le r0 have le0: "\<forall>u\<in>set rest. line t \<le> line u \<and> line u \<noteq> 0" by simp
  from assms(4) tk have "abstractLoop ids (t # rest) [] 1 0 [] = Inr ls"
    by (simp add: makeAbstractedCode_def del: abstractLoop.simps)
  then obtain gap where g: "repeatSpace (start (columns t) - 1) = Inr gap"
    and r: "abstractLoop ids rest [] (end_col (columns t)) (line t) (gap @ tokenText ids t) = Inr ls"
    unfolding abstractLoop_first by (auto split: sum.splits)
  from abstractLoop_length[OF t0 r0 r] tk
  show len: "length ls = length (remdups_adj (map line tokens))" by simp
  then have "ls \<noteq> []" using assms(1) by auto
  then have dr: "ls = ls ! 0 # drop (Suc 0) ls" by (cases ls) auto
  from makeAbstractedCode_first_line[OF t0 st g r]
  have hd: "makeAbstractedCode (filter (\<lambda>u. line u = line t) (t # rest)) ids = Inr [ls ! 0]"
    by simp
  let ?Ls = "tl (remdups_adj (line t # map line rest))"
  have "sorted (line t # map line rest)" using st by simp
  from remdups_adj_hd_notin_tl[OF this] have notin: "line t \<notin> set ?Ls" .
  have tail: "map (\<lambda>L. makeAbstractedCode (filter (\<lambda>u. line u = L) (t # rest)) ids) ?Ls
              = map (\<lambda>L. makeAbstractedCode (filter (\<lambda>u. line u = L) rest) ids) ?Ls"
    using notin by (intro map_cong) auto
  from abstractLoop_later_lines[OF t0 sr le0 r]
  have "map (\<lambda>L. makeAbstractedCode (filter (\<lambda>u. line u = L) rest) ids) ?Ls
        = map (\<lambda>e. Inr [e]) (drop (Suc 0) ls)" by simp
  with tail have tl: "map (\<lambda>L. makeAbstractedCode (filter (\<lambda>u. line u = L) (t # rest)) ids) ?Ls
        = map (\<lambda>e. Inr [e]) (drop (Suc 0) ls)" by (simp only:)
  have Ls: "remdups_adj (map line (t # rest)) = line t # ?Ls" by simp
  have "map (\<lambda>L. makeAbstractedCode (filter (\<lambda>u. line u = L) (t # rest)) ids) (line t # ?Ls)
        = map (\<lambda>e. Inr [e]) (ls ! 0 # drop (Suc 0) ls)"
    by (simp only: list.map hd tl)
  then have "map (\<lambda>L. makeAbstractedCode (filter (\<lambda>u. line u = L) (t # rest)) ids) (line t # ?Ls)
        = map (\<lambda>e. Inr [e]) ls"
    by (simp only: dr[symmetric])
  then show "map (\<lambda>L. makeAbstractedCode (filter (\<lambda>u. line u = L) tokens) ids)
             (remdups_adj (map line tokens))
         = map (\<lambda>e. Inr [e]) ls" by (simp only: tk Ls)
qed

lemma remdups_adj_sorted_list_of_set:
  fixes xs :: "int list"
  assumes "sorted xs"
  shows "remdups_adj xs = sorted_list_of_set (set xs)"
proof (rule sorted_distinct_set_unique)
  show "sorted (remdups_adj xs)" using assms by simp
  show "distinct (remdups_adj xs)" using assms by (rule distinct_remdups_adj_sorted)
  show "sorted (sorted_list_of_set (set xs))" by simp
  show "distinct (sorted_list_of_set (set xs))" by simp
  show "set (remdups_adj xs) = set (sorted_list_of_set (set xs))" by simp
qed

text \<open>
  Claim C3 as stated fails for the empty token stream: the push after the loop always
  adds an entry, so the result has one entry and not as many as there are lines (none).
  It also fails when a line number comes back after another one (an entry is pushed at
  every change of line), and when a token is on line 0, the value that the loop reads as
  ``no line yet'' (the token is merged with the next line).
\<close>

theorem makeAbstractedCode_empty_counterexample:
  "\<not> (\<exists>ls. makeAbstractedCode [] [] = Inr ls \<and> length ls = card (line ` set ([] :: Token list)))
   \<and> \<not> (\<exists>ls. makeAbstractedCode
              [mkToken ''a'' [''source.js''] 1 1 2, mkToken ''b'' [''source.js''] 2 1 2,
               mkToken ''c'' [''source.js''] 1 1 2] [] = Inr ls
            \<and> length ls = card (line ` set
              [mkToken ''a'' [''source.js''] 1 1 2, mkToken ''b'' [''source.js''] 2 1 2,
               mkToken ''c'' [''source.js''] 1 1 2]))
   \<and> \<not> (\<exists>ls. makeAbstractedCode
              [mkToken ''a'' [''source.js''] 0 1 2, mkToken ''b'' [''source.js''] 1 2 3] [] = Inr ls
            \<and> length ls = card (line ` set
              [mkToken ''a'' [''source.js''] 0 1 2, mkToken ''b'' [''source.js''] 1 2 3]))"
proof -
  have a: "makeAbstractedCode [] [] = Inr ['''']" by code_simp
  have b: "makeAbstractedCode
              [mkToken ''a'' [''source.js''] 1 1 2, mkToken ''b'' [''source.js''] 2 1 2,
               mkToken ''c'' [''source.js''] 1 1 2] [] = Inr [''a'', ''b'', ''c'']" by code_simp
  have c: "makeAbstractedCode
              [mkToken ''a'' [''source.js''] 0 1 2, mkToken ''b'' [''source.js''] 1 2 3] []
           = Inr [''ab'']" by code_simp
  have cb: "card (line ` set
              [mkToken ''a'' [''source.js''] 1 1 2, mkToken ''b'' [''source.js''] 2 1 2,
               mkToken ''c'' [''source.js''] 1 1 2]) = 2" by code_simp
  have cc: "card (line ` set
              [mkToken ''a'' [''source.js''] 0 1 2, mkToken ''b'' [''source.js''] 1 2 3]) = 2"
    by code_simp
  show ?thesis unfolding a b c cb cc by simp
qed

text \<open>
  Claim C4, amended. For two token streams in which every token has a scope, a line
  number other than 0 and a start column of at least 1, and successive tokens of a line
  do not overlap, identifier unification and the abstraction of both streams return a
  value. With a tokenizer that only produces such streams, \<open>makePatterns\<close> returns a
  pattern or \<open>undefined\<close> and \<open>makePatternsFromDiff\<close> returns a list. \<open>formatPatterns\<close>
  has no failing branch: on every input it returns two lists of the lengths of its inputs.
\<close>

theorem core_functions_return:
  "(wellFormedTokens before \<and> wellFormedTokens after \<longrightarrow>
      (\<exists>ids cp qp. collectCommonIdentifiers before after = Inr ids
         \<and> makeAbstractedCode before ids = Inr cp \<and> makeAbstractedCode after ids = Inr qp))
   \<and> ((\<forall>text lang ts. tokenize text lang = Some ts \<longrightarrow> wellFormedTokens ts) \<longrightarrow>
        (\<exists>r. makePatterns tokenize b a s = Inr r)
        \<and> (\<exists>ps. makePatternsFromDiff tokenize makeDiffObj diff = Inr ps))
   \<and> (\<exists>c' q'. formatPatterns c q = (c', q') \<and> length c' = length c \<and> length q' = length q)"
proof -
  have "\<exists>c' q'. formatPatterns c q = (c', q') \<and> length c' = length c \<and> length q' = length q"
    by (simp add: formatPatterns_def Let_def)
  then show ?thesis
    using core_returns[of before after] makePatterns_returns[of tokenize b a s]
      diffLoop_returns[of tokenize "makeDiffObj diff" "[]"]
    unfolding makePatternsFromDiff_def by blast
qed

lemma exampleTokenize_wellFormed:
  "\<forall>text lang ts. exampleTokenize text lang = Some ts \<longrightarrow> wellFormedTokens ts"
proof (intro allI impI)
  fix input lang ts
  assume "exampleTokenize input lang = Some ts"
  then have "ts = exampleBefore \<or> ts = exampleAfter \<or> ts = []"
    by (auto simp: exampleTokenize_def split: if_splits)
  moreover have "wellFormedTokens exampleBefore" by code_simp
  moreover have "wellFormedTokens exampleAfter" by code_simp
  moreover have "wellFormedTokens []" by (simp add: wellFormedTokens_def)
  ultimately show "wellFormedTokens ts" by blast
qed

theorem core_functions_return_witness:
  "wellFormedTokens exampleBefore \<and> wellFormedTokens exampleAfter
   \<and> (\<exists>ids cp qp. collectCommonIdentifiers exampleBefore exampleAfter = Inr ids
         \<and> makeAbstractedCode exampleBefore ids = Inr cp
         \<and> makeAbstractedCode exampleAfter ids = Inr qp)
   \<and> (\<exists>ps. makePatternsFromDiff exampleTokenize (\<lambda>d. exampleChunks) ''a diff'' = Inr ps)"
proof -
  have b: "wellFormedTokens exampleBefore" by code_simp
  have a: "wellFormedTokens exampleAfter" by code_simp
  note r = core_functions_return[of exampleBefore exampleAfter exampleTokenize
      "Some []" "Some []" "Some ''javascript''" "\<lambda>d. exampleChunks" "''a diff''"]
  from r a b have c: "\<exists>ids cp qp. collectCommonIdentifiers exampleBefore exampleAfter = Inr ids
         \<and> makeAbstractedCode exampleBefore ids = Inr cp
         \<and> makeAbstractedCode exampleAfter ids = Inr qp" by blast
  from r exampleTokenize_wellFormed
  have d: "\<exists>ps. makePatternsFromDiff exampleTokenize (\<lambda>d. exampleChunks) ''a diff'' = Inr ps"
    by blast
  from a b c d show ?thesis by blast
qed

text \<open>
  Claim C4 as stated fails: a token that starts left of the cursor makes the count of
  \<open>repeat\<close> negative (start column 0 at the start of a line; a token that starts before
  the end of the previous one; a first token on line 0, after which the cursor is not
  reset), and a matching before-token without scopes makes \<open>isAbstractable\<close> call
  \<open>includes\<close> on \<open>undefined\<close>.
\<close>

theorem core_functions_throw_counterexample:
  "makeAbstractedCode [mkToken ''x'' [''source.js''] 1 0 1] [] = Inl RangeError
   \<and> makeAbstractedCode [mkToken ''ab'' [''source.js''] 1 1 3, mkToken ''c'' [''source.js''] 1 2 3] []
       = Inl RangeError
   \<and> makeAbstractedCode [mkToken ''ab'' [''source.js''] 0 5 7, mkToken ''c'' [''source.js''] 1 1 2] []
       = Inl RangeError
   \<and> collectCommonIdentifiers [mkToken ''x'' [] 1 1 2] [mkToken ''x'' [] 1 1 2] = Inl TypeError"
  by code_simp

section \<open>Abstracted lines as assembled segments\<close>

lemma repeatSpace_gap: "repeatSpace n = Inr gap \<Longrightarrow> gap = replicate (nat n) (CHR '' '')"
  by (auto simp: repeatSpace_def split: if_splits)

lemma assembleLine_Cons:
  "assembleLine txt (t # ts) (g # gs) = replicate g (CHR '' '') @ txt t @ assembleLine txt ts gs"
  by (simp add: assembleLine_def)

lemma assembleLine_Nil: "assembleLine txt [] gs = []"
  by (simp add: assembleLine_def)

lemma assemble_Cons:
  "assemble txt (ts # tss) (gs # gss) = assembleLine txt ts gs # assemble txt tss gss"
  by (simp add: assemble_def)

lemma abstractLoop_assembled:
  assumes "abstractLoop ids ts ps pos pl lc = Inr ls"
  shows "\<exists>ts0 gs0 tss gss.
           ts = ts0 @ concat tss \<and> length gs0 = length ts0
           \<and> list_all2 (\<lambda>a b. length a = length b) tss gss
           \<and> ls = ps @ (lc @ assembleLine (tokenText ids) ts0 gs0)
                       # assemble (tokenText ids) tss gss"
  using assms
proof (induction ts arbitrary: ps pos pl lc)
  case Nil
  then have "ls = ps @ [lc]" by auto
  then have "[] = [] @ concat ([] :: Token list list) \<and> length ([] :: nat list) = length ([] :: Token list)
      \<and> list_all2 (\<lambda>a b. length a = length b) ([] :: Token list list) ([] :: nat list list)
      \<and> ls = ps @ (lc @ assembleLine (tokenText ids) [] [])
                       # assemble (tokenText ids) [] []"
    by (simp add: assembleLine_def assemble_def)
  then show ?case by blast
next
  case (Cons t rest)
  show ?case
  proof (cases "pl = 0 \<or> pl = line t")
    case True
    from Cons.prems obtain gap where g: "repeatSpace (start (columns t) - pos) = Inr gap"
      and r: "abstractLoop ids rest ps (end_col (columns t)) (line t) (lc @ gap @ tokenText ids t) = Inr ls"
      unfolding abstractLoop_same[OF True] by (auto split: sum.splits)
    let ?g = "nat (start (columns t) - pos)"
    from repeatSpace_gap[OF g] have gap: "gap = replicate ?g (CHR '' '')" .
    from Cons.IH[OF r] obtain ts0 gs0 tss gss where
      a: "rest = ts0 @ concat tss" and b: "length gs0 = length ts0"
      and c: "list_all2 (\<lambda>a b. length a = length b) tss gss"
      and d: "ls = ps @ ((lc @ gap @ tokenText ids t) @ assembleLine (tokenText ids) ts0 gs0)
                       # assemble (tokenText ids) tss gss" by blast
    have "t # rest = (t # ts0) @ concat tss" using a by simp
    moreover have "length (?g # gs0) = length (t # ts0)" using b by simp
    moreover have "ls = ps @ (lc @ assembleLine (tokenText ids) (t # ts0) (?g # gs0))
                       # assemble (tokenText ids) tss gss"
      using d gap by (simp add: assembleLine_Cons)
    ultimately show ?thesis using c by blast
  next
    case False
    then have f: "pl \<noteq> 0" "pl \<noteq> line t" by simp_all
    from Cons.prems obtain gap where g: "repeatSpace (start (columns t) - 1) = Inr gap"
      and r: "abstractLoop ids rest (ps @ [lc]) (end_col (columns t)) (line t) (gap @ tokenText ids t) = Inr ls"
      unfolding abstractLoop_new[OF f] by (auto split: sum.splits)
    let ?g = "nat (start (columns t) - 1)"
    from repeatSpace_gap[OF g] have gap: "gap = replicate ?g (CHR '' '')" .
    from Cons.IH[OF r] obtain ts0 gs0 tss gss where
      a: "rest = ts0 @ concat tss" and b: "length gs0 = length ts0"
      and c: "list_all2 (\<lambda>a b. length a = length b) tss gss"
      and d: "ls = (ps @ [lc]) @ ((gap @ tokenText ids t) @ assembleLine (tokenText ids) ts0 gs0)
                       # assemble (tokenText ids) tss gss" by blast
    have "t # rest = [] @ concat ((t # ts0) # tss)" using a by simp
    moreover have "length ([] :: nat list) = length ([] :: Token list)" by simp
    moreover have "list_all2 (\<lambda>a b. length a = length b) ((t # ts0) # tss) ((?g # gs0) # gss)"
      using b c by simp
    moreover have "ls = ps @ (lc @ assembleLine (tokenText ids) [] [])
                       # assemble (tokenText ids) ((t # ts0) # tss) ((?g # gs0) # gss)"
      using d gap by (simp add: assembleLine_Cons assembleLine_Nil assemble_Cons)
    ultimately show ?thesis by blast
  qed
qed

lemma makeAbstractedCode_assembled:
  assumes "makeAbstractedCode tokens ids = Inr ls"
  shows "\<exists>tss gss. concat tss = tokens
           \<and> list_all2 (\<lambda>a b. length a = length b) tss gss
           \<and> ls = assemble (tokenText ids) tss gss"
proof -
  from assms have "abstractLoop ids tokens [] 1 0 [] = Inr ls"
    by (simp add: makeAbstractedCode_def)
  from abstractLoop_assembled[OF this] obtain ts0 gs0 tss gss where
    a: "tokens = ts0 @ concat tss" and b: "length gs0 = length ts0"
    and c: "list_all2 (\<lambda>a b. length a = length b) tss gss"
    and d: "ls = [] @ ([] @ assembleLine (tokenText ids) ts0 gs0) # assemble (tokenText ids) tss gss"
    by blast
  have "concat (ts0 # tss) = tokens" using a by simp
  moreover have "list_all2 (\<lambda>a b. length a = length b) (ts0 # tss) (gs0 # gss)"
    using b c by simp
  moreover have "ls = assemble (tokenText ids) (ts0 # tss) (gs0 # gss)"
    using d by (simp add: assemble_Cons)
  ultimately show ?thesis by blast
qed

lemma assembleLine_cong:
  assumes "\<forall>t\<in>set ts. f t = g t"
  shows "assembleLine f ts gs = assembleLine g ts gs"
  using assms
proof (induction ts arbitrary: gs)
  case Nil
  then show ?case by (simp add: assembleLine_def)
next
  case (Cons t ts)
  then show ?case by (cases gs) (simp_all add: assembleLine_def)
qed

lemma assemble_cong:
  assumes "\<forall>t\<in>set (concat tss). f t = g t"
  shows "assemble f tss gss = assemble g tss gss"
  using assms
proof (induction tss arbitrary: gss)
  case Nil
  then show ?case by (simp add: assemble_def)
next
  case (Cons ts tss)
  show ?case
  proof (cases gss)
    case Nil
    then show ?thesis by (simp add: assemble_def)
  next
    case (Cons gs gss')
    from Cons.prems have "\<forall>t\<in>set ts. f t = g t" "\<forall>t\<in>set (concat tss). f t = g t" by simp_all
    from assembleLine_cong[OF this(1), of gs] Cons.IH[OF this(2), of gss'] Cons
    show ?thesis by (simp add: assemble_Cons)
  qed
qed

lemma keywordScoped_literal:
  assumes "collectCommonIdentifiers before after = Inr ids" and "keywordScoped t"
  shows "checkInIdentifiers ids t = None \<and> tokenText ids t = tok_value t"
proof -
  from assms(2) obtain sc where sc: "innermost t = Some sc"
    "includesStr sc ''keyword'' \<or> includesStr sc ''builtin'' \<or> includesStr sc ''storage''"
    by (auto simp: keywordScoped_def split: option.splits)
  have "asIdentifier t \<notin> set ids"
  proof
    assume "asIdentifier t \<in> set ids"
    with collect_Inr[OF assms(1)] have "asIdentifier t \<in> set (unifyScan before after)" by simp
    from unifyScan_members[OF this] obtain b
      where b: "abstractable b" "asIdentifier t = asIdentifier b" by blast
    from b(2) have "innermost b = innermost t" by (simp add: asIdentifier_def)
    with abstractable_scope[OF b(1)] sc show False by auto
  qed
  then have "checkInIdentifiers ids t = None" by (simp add: checkInIdentifiers_None)
  then show ?thesis by (simp add: tokenText_def)
qed

lemma abstraction_keeps_keywords:
  assumes "collectCommonIdentifiers before after = Inr ids"
    and "makeAbstractedCode tokens ids = Inr ls"
  shows "\<exists>tss gss. concat tss = tokens
           \<and> list_all2 (\<lambda>a b. length a = length b) tss gss
           \<and> ls = assemble (\<lambda>t. if keywordScoped t then tok_value t else tokenText ids t) tss gss"
proof -
  from makeAbstractedCode_assembled[OF assms(2)] obtain tss gss where
    a: "concat tss = tokens" and b: "list_all2 (\<lambda>a b. length a = length b) tss gss"
    and c: "ls = assemble (tokenText ids) tss gss" by blast
  have "\<forall>t\<in>set (concat tss).
          tokenText ids t = (if keywordScoped t then tok_value t else tokenText ids t)"
    using keywordScoped_literal[OF assms(1)] by simp
  from assemble_cong[OF this] c
  have "ls = assemble (\<lambda>t. if keywordScoped t then tok_value t else tokenText ids t) tss gss"
    by simp
  with a b show ?thesis by blast
qed

text \<open>
  Claim C9. With the identifiers that \<open>collectCommonIdentifiers\<close> returns for two token
  streams, the abstracted output of either stream is assembled from the tokens of the
  stream in their order, each contributing a run of spaces and its text, and the text of
  every token whose innermost scope contains \<open>keyword\<close>, \<open>builtin\<close> or \<open>storage\<close> is
  its literal value: such a token matches no identifier, whatever occurs in both streams.
\<close>

theorem keyword_tokens_stay_literal:
  assumes "collectCommonIdentifiers before after = Inr ids"
  shows "(\<forall>cp. makeAbstractedCode before ids = Inr cp \<longrightarrow>
            (\<exists>tss gss. concat tss = before
               \<and> list_all2 (\<lambda>a b. length a = length b) tss gss
               \<and> cp = assemble (\<lambda>t. if keywordScoped t then tok_value t else tokenText ids t)
                        tss gss))
         \<and> (\<forall>qp. makeAbstractedCode after ids = Inr qp \<longrightarrow>
            (\<exists>tss gss. concat tss = after
               \<and> list_all2 (\<lambda>a b. length a = length b) tss gss
               \<and> qp = assemble (\<lambda>t. if keywordScoped t then tok_value t else tokenText ids t)
                        tss gss))
         \<and> (\<forall>t. keywordScoped t \<longrightarrow>
               checkInIdentifiers ids t = None \<and> tokenText ids t = tok_value t)"
  using abstraction_keeps_keywords[OF assms] keywordScoped_literal[OF assms] by blast

theorem keyword_tokens_stay_literal_witness:
  "collectCommonIdentifiers exampleBefore exampleAfter = Inr exampleIds
   \<and> makeAbstractedCode exampleBefore exampleIds
       = Inr [''${1:entity.name.function.js}( let'', ''  ${1:entity.name.function.js}'']
   \<and> keywordScoped (mkToken ''let'' [''source.js'', ''storage.type.js''] 1 6 9)
   \<and> (\<exists>tss gss. concat tss = exampleBefore
         \<and> list_all2 (\<lambda>a b. length a = length b) tss gss
         \<and> [''${1:entity.name.function.js}( let'', ''  ${1:entity.name.function.js}'']
             = assemble (\<lambda>t. if keywordScoped t then tok_value t else tokenText exampleIds t)
                 tss gss)
   \<and> tokenText exampleIds (mkToken ''let'' [''source.js'', ''storage.type.js''] 1 6 9) = ''let''"
proof -
  let ?t = "mkToken ''let'' [''source.js'', ''storage.type.js''] 1 6 9"
  have v: "collectCommonIdentifiers exampleBefore exampleAfter = Inr exampleIds"
    by code_simp
  have c: "makeAbstractedCode exampleBefore exampleIds
       = Inr [''${1:entity.name.function.js}( let'', ''  ${1:entity.name.function.js}'']"
    by code_simp
  have k: "keywordScoped ?t" by code_simp
  note r = keyword_tokens_stay_literal[OF v]
  from r c have a: "\<exists>tss gss. concat tss = exampleBefore
         \<and> list_all2 (\<lambda>a b. length a = length b) tss gss
         \<and> [''${1:entity.name.function.js}( let'', ''  ${1:entity.name.function.js}'']
             = assemble (\<lambda>t. if keywordScoped t then tok_value t else tokenText exampleIds t)
                 tss gss" by blast
  from r k have "tokenText exampleIds ?t = tok_value ?t" by blast
  then have l: "tokenText exampleIds ?t = ''let''" by (simp add: mkToken_def)
  from v c k a l show ?thesis by blast
qed

lemma makeAbstractedCode_returns_placed:
  assumes "list_all (\<lambda>t. line t \<noteq> 0 \<and> 1 \<le> start (columns t)) ts"
    and "successively leftToRight ts"
  shows "\<exists>ls. makeAbstractedCode ts ids = Inr ls"
proof -
  have c: "ts \<noteq> [] \<longrightarrow> ((0::int) = 0 \<or> 0 = line (hd ts)) \<longrightarrow> 1 \<le> start (columns (hd ts))"
    using assms(1) by (cases ts) auto
  from abstractLoop_returns[OF assms c] show ?thesis by (simp add: makeAbstractedCode_def)
qed

text \<open>
  Claim C3, amended. An empty token stream yields the one-entry list holding the empty
  string. For a non-empty token stream whose line numbers are not 0 and do not decrease,
  a list that \<open>makeAbstractedCode\<close> returns has as many entries as there are
  distinct line values among the tokens, and its entries are, in increasing line order,
  the abstraction of the tokens of each line. It does return a list when every token has
  a line number other than 0 and starts at column 1 or later, and successive tokens of a
  line do not overlap.
\<close>

theorem makeAbstractedCode_one_entry_per_line:
  "makeAbstractedCode [] ids = Inr ['''']
   \<and> (tokens \<noteq> [] \<and> sorted (map line tokens) \<and> (\<forall>t\<in>set tokens. line t \<noteq> 0)
        \<and> makeAbstractedCode tokens ids = Inr ls \<longrightarrow>
      length ls = card (line ` set tokens)
      \<and> map (\<lambda>e. Inr [e]) ls
          = map (\<lambda>L. makeAbstractedCode (filter (\<lambda>t. line t = L) tokens) ids)
              (sorted_list_of_set (line ` set tokens)))
   \<and> (list_all (\<lambda>t. line t \<noteq> 0 \<and> 1 \<le> start (columns t)) tokens
        \<and> successively leftToRight tokens \<longrightarrow>
      (\<exists>ls. makeAbstractedCode tokens ids = Inr ls))"
proof (intro conjI impI)
  show "makeAbstractedCode [] ids = Inr ['''']" by (simp add: makeAbstractedCode_def)
next
  assume "list_all (\<lambda>t. line t \<noteq> 0 \<and> 1 \<le> start (columns t)) tokens
        \<and> successively leftToRight tokens"
  then show "\<exists>ls. makeAbstractedCode tokens ids = Inr ls"
    using makeAbstractedCode_returns_placed[of tokens ids] by blast
next
  assume a: "tokens \<noteq> [] \<and> sorted (map line tokens) \<and> (\<forall>t\<in>set tokens. line t \<noteq> 0)
        \<and> makeAbstractedCode tokens ids = Inr ls"
  then have a1: "tokens \<noteq> []" and a2: "sorted (map line tokens)"
    and a3: "\<forall>t\<in>set tokens. line t \<noteq> 0" and a4: "makeAbstractedCode tokens ids = Inr ls"
    by simp_all
  have e: "remdups_adj (map line tokens) = sorted_list_of_set (line ` set tokens)"
    using remdups_adj_sorted_list_of_set[OF a2] by simp
  from makeAbstractedCode_lines(1)[OF a1 a2 a3 a4] e
  show "length ls = card (line ` set tokens)" by simp
  from makeAbstractedCode_lines(2)[OF a1 a2 a3 a4] e
  show "map (\<lambda>e. Inr [e]) ls
          = map (\<lambda>L. makeAbstractedCode (filter (\<lambda>t. line t = L) tokens) ids)
              (sorted_list_of_set (line ` set tokens))" by simp
qed

theorem makeAbstractedCode_one_entry_per_line_witness:
  "exampleBefore \<noteq> [] \<and> sorted (map line exampleBefore)
   \<and> list_all (\<lambda>t. line t \<noteq> 0 \<and> 1 \<le> start (columns t)) exampleBefore
   \<and> successively leftToRight exampleBefore
   \<and> makeAbstractedCode exampleBefore exampleIds
       = Inr [''${1:entity.name.function.js}( let'', ''  ${1:entity.name.function.js}'']
   \<and> card (line ` set exampleBefore) = 2
   \<and> (\<exists>ls. makeAbstractedCode exampleBefore [] = Inr ls)"
proof -
  have n: "exampleBefore \<noteq> []" by (simp add: exampleBefore_def)
  have s: "sorted (map line exampleBefore)" by (simp add: exampleBefore_def mkToken_def)
  have z: "\<forall>t\<in>set exampleBefore. line t \<noteq> 0" by (simp add: exampleBefore_def mkToken_def)
  have p: "list_all (\<lambda>t. line t \<noteq> 0 \<and> 1 \<le> start (columns t)) exampleBefore" by code_simp
  have o: "successively leftToRight exampleBefore" by code_simp
  have v: "makeAbstractedCode exampleBefore exampleIds
       = Inr [''${1:entity.name.function.js}( let'', ''  ${1:entity.name.function.js}'']"
    by code_simp
  from makeAbstractedCode_one_entry_per_line[of exampleIds exampleBefore
      "[''${1:entity.name.function.js}( let'', ''  ${1:entity.name.function.js}'']"] n s z v
  have c: "card (line ` set exampleBefore) = 2" by simp
  from makeAbstractedCode_one_entry_per_line[of "[]" exampleBefore "[]"] p o
  have r: "\<exists>ls. makeAbstractedCode exampleBefore [] = Inr ls" by blast
  from n s p o v c r show ?thesis by blast
qed

section \<open>Idempotence of the normalizer\<close>

lemma map_fixed: "map f xs = xs \<Longrightarrow> x \<in> set xs \<Longrightarrow> f x = x"
  by (induction xs) auto

lemma formatPatterns_fixed_iff:
  "formatPatterns c q = (c, q)
   \<longleftrightarrow> min (countSpace c) (countSpace q) = \<infinity> \<or> min (countSpace c) (countSpace q) = enat 0"
proof
  assume fx: "formatPatterns c q = (c, q)"
  show "min (countSpace c) (countSpace q) = \<infinity> \<or> min (countSpace c) (countSpace q) = enat 0"
  proof (cases "min (countSpace c) (countSpace q)")
    case infinity
    then show ?thesis by simp
  next
    case (enat m)
    then have cs: "countSpace (c @ q) = enat m" by (simp add: countSpace_append)
    from countSpace_attained[OF cs] obtain l
      where l: "l \<in> set (c @ q)" "l \<noteq> []" "leadingSpaces l = m" by blast
    from formatPatterns_finite[OF enat] fx
    have "map (drop m) (c @ q) = c @ q" by simp
    from map_fixed[OF this l(1)] have "drop m l = l" .
    then have "length (drop m l) = length l" by simp
    then have "length l - m = length l" by simp
    moreover have "0 < length l" using l(2) by simp
    ultimately have "m = 0" by arith
    with enat show ?thesis by simp
  qed
next
  assume "min (countSpace c) (countSpace q) = \<infinity> \<or> min (countSpace c) (countSpace q) = enat 0"
  then show "formatPatterns c q = (c, q)"
  proof
    assume "min (countSpace c) (countSpace q) = \<infinity>"
    then show ?thesis by (rule formatPatterns_all_empty)
  next
    assume "min (countSpace c) (countSpace q) = enat 0"
    from formatPatterns_finite[OF this] show ?thesis by simp
  qed
qed

lemma minSpace_zero_iff:
  "min (countSpace c) (countSpace q) = enat 0
   \<longleftrightarrow> list_ex (\<lambda>l. l \<noteq> [] \<and> leadingSpaces l = 0) (c @ q)"
proof
  assume "min (countSpace c) (countSpace q) = enat 0"
  then have "countSpace (c @ q) = enat 0" by (simp add: countSpace_append)
  from countSpace_attained[OF this] show "list_ex (\<lambda>l. l \<noteq> [] \<and> leadingSpaces l = 0) (c @ q)"
    unfolding list_ex_iff by blast
next
  assume "list_ex (\<lambda>l. l \<noteq> [] \<and> leadingSpaces l = 0) (c @ q)"
  then obtain l where "l \<in> set (c @ q)" "l \<noteq> []" "leadingSpaces l = 0"
    unfolding list_ex_iff by blast
  from countSpace_zero[OF this] show "min (countSpace c) (countSpace q) = enat 0"
    by (simp add: countSpace_append)
qed

lemma minSpace_infinity_iff:
  "min (countSpace c) (countSpace q) = \<infinity> \<longleftrightarrow> list_all (\<lambda>l. l = []) (c @ q)"
  using countSpace_infinity[of "c @ q"] by (simp add: countSpace_append list_all_iff)

lemma stripped_zero_iff:
  assumes "countSpace xs = enat n"
  shows "list_ex (\<lambda>l. l \<noteq> [] \<and> leadingSpaces l = 0) (map (drop n) xs)
         \<longleftrightarrow> (\<exists>l\<in>set xs. leadingSpaces l = n \<and> n < length l)"
proof
  assume "list_ex (\<lambda>l. l \<noteq> [] \<and> leadingSpaces l = 0) (map (drop n) xs)"
  then obtain l where l: "l \<in> set xs" "drop n l \<noteq> []" "leadingSpaces (drop n l) = 0"
    unfolding list_ex_iff by auto
  from l(2) have len: "n < length l" and ne: "l \<noteq> []" by auto
  from countSpace_lower[OF assms l(1) ne] have "n \<le> leadingSpaces l" .
  with leadingSpaces_drop[of n l] l(3) have "leadingSpaces l = n" by simp
  with l(1) len show "\<exists>l\<in>set xs. leadingSpaces l = n \<and> n < length l" by blast
next
  assume "\<exists>l\<in>set xs. leadingSpaces l = n \<and> n < length l"
  then obtain l where l: "l \<in> set xs" "leadingSpaces l = n" "n < length l" by blast
  from l(3) have "drop n l \<noteq> []" by simp
  moreover have "leadingSpaces (drop n l) = 0" using leadingSpaces_drop[of n l] l(2) by simp
  moreover have "drop n l \<in> set (map (drop n) xs)" using l(1) by simp
  ultimately show "list_ex (\<lambda>l. l \<noteq> [] \<and> leadingSpaces l = 0) (map (drop n) xs)"
    unfolding list_ex_iff by blast
qed

lemma stripped_empty_iff:
  "list_all (\<lambda>l. l = []) (map (drop n) xs) \<longleftrightarrow> \<not> list_ex (\<lambda>l. n < length l) xs"
  by (induction xs) auto

lemma attains_not_spaces_iff:
  "(\<exists>l\<in>set xs. leadingSpaces l = n \<and> n < length l)
   \<longleftrightarrow> \<not> list_all (\<lambda>l. leadingSpaceCount l = n \<longrightarrow> length l = n) xs"
proof
  assume "\<exists>l\<in>set xs. leadingSpaces l = n \<and> n < length l"
  then show "\<not> list_all (\<lambda>l. leadingSpaceCount l = n \<longrightarrow> length l = n) xs"
    by (auto simp: list_all_iff leadingSpaceCount_eq)
next
  assume "\<not> list_all (\<lambda>l. leadingSpaceCount l = n \<longrightarrow> length l = n) xs"
  then obtain l where l: "l \<in> set xs" "leadingSpaces l = n" "length l \<noteq> n"
    by (auto simp: list_all_iff leadingSpaceCount_eq)
  with leadingSpaces_le[of l] have "n < length l" by simp
  with l show "\<exists>l\<in>set xs. leadingSpaces l = n \<and> n < length l" by blast
qed

lemma stripsAgain_iff:
  "\<not> stripsAgain c q
   \<longleftrightarrow> list_ex (\<lambda>l. l \<noteq> [] \<and> leadingSpaces l = 0)
            (fst (formatPatterns c q) @ snd (formatPatterns c q))
       \<or> list_all (\<lambda>l. l = []) (fst (formatPatterns c q) @ snd (formatPatterns c q))"
proof (cases "overallMinimum c q")
  case None
  then have m: "min (countSpace c) (countSpace q) = \<infinity>" by (simp add: minSpace_overallMinimum)
  from formatPatterns_all_empty[OF m] minSpace_infinity_iff[of c q] m None
  show ?thesis by (simp add: stripsAgain_def)
next
  case (Some n)
  then have m: "min (countSpace c) (countSpace q) = enat n" by (simp add: minSpace_overallMinimum)
  then have cs: "countSpace (c @ q) = enat n" by (simp add: countSpace_append)
  from formatPatterns_finite[OF m]
  have out: "fst (formatPatterns c q) @ snd (formatPatterns c q) = map (drop n) (c @ q)" by simp
  show ?thesis
    unfolding out stripped_zero_iff[OF cs] stripped_empty_iff attains_not_spaces_iff
    using Some by (auto simp: stripsAgain_def)
qed

text \<open>
  Claim C10, amended. \<open>formatPatterns\<close> applied to its own output returns that output
  unchanged exactly when, after one normalization, some non-empty line has zero leading
  spaces or all lines are empty. On the input this is every case but one: a second pass
  strips again exactly when every line that attains the minimum leading-space count
  consists of spaces only and some line is longer than that count.
\<close>

theorem formatPatterns_idempotent:
  "(formatPatterns (fst (formatPatterns c q)) (snd (formatPatterns c q)) = formatPatterns c q)
     = (list_ex (\<lambda>l. l \<noteq> [] \<and> leadingSpaces l = 0)
          (fst (formatPatterns c q) @ snd (formatPatterns c q))
        \<or> list_all (\<lambda>l. l = []) (fst (formatPatterns c q) @ snd (formatPatterns c q)))
   \<and> (formatPatterns (fst (formatPatterns c q)) (snd (formatPatterns c q)) = formatPatterns c q)
       = (\<not> stripsAgain c q)"
proof -
  obtain c' q' where r: "formatPatterns c q = (c', q')" by (cases "formatPatterns c q")
  have "(formatPatterns c' q' = (c', q'))
        = (list_ex (\<lambda>l. l \<noteq> [] \<and> leadingSpaces l = 0) (c' @ q') \<or> list_all (\<lambda>l. l = []) (c' @ q'))"
    using formatPatterns_fixed_iff[of c' q'] minSpace_zero_iff[of c' q']
      minSpace_infinity_iff[of c' q'] by blast
  with r have first: "(formatPatterns (fst (formatPatterns c q)) (snd (formatPatterns c q))
        = formatPatterns c q)
     = (list_ex (\<lambda>l. l \<noteq> [] \<and> leadingSpaces l = 0)
          (fst (formatPatterns c q) @ snd (formatPatterns c q))
        \<or> list_all (\<lambda>l. l = []) (fst (formatPatterns c q) @ snd (formatPatterns c q)))"
    by simp
  with stripsAgain_iff[of c q] show ?thesis by blast
qed

theorem formatPatterns_idempotent_witness:
  "\<not> stripsAgain [''  foo'', ''    '', ''  bar''] []
   \<and> formatPatterns [''  foo'', ''    '', ''  bar''] [] = ([''foo'', ''  '', ''bar''], [])
   \<and> formatPatterns [''foo'', ''  '', ''bar''] [] = ([''foo'', ''  '', ''bar''], [])
   \<and> stripsAgain ['' '', ''  a''] []
   \<and> formatPatterns ['' '', ''  a''] [] = (['''', '' a''], [])
   \<and> formatPatterns ['''', '' a''] [] \<noteq> (['''', '' a''], [])"
proof -
  have s1: "\<not> stripsAgain [''  foo'', ''    '', ''  bar''] []" by code_simp
  have v1: "formatPatterns [''  foo'', ''    '', ''  bar''] [] = ([''foo'', ''  '', ''bar''], [])"
    by code_simp
  have s2: "stripsAgain ['' '', ''  a''] []" by code_simp
  have v2: "formatPatterns ['' '', ''  a''] [] = (['''', '' a''], [])" by code_simp
  from formatPatterns_idempotent[of "[''  foo'', ''    '', ''  bar'']" "[]"] s1 v1
  have i1: "formatPatterns [''foo'', ''  '', ''bar''] [] = ([''foo'', ''  '', ''bar''], [])"
    by simp
  from formatPatterns_idempotent[of "['' '', ''  a'']" "[]"] s2 v2
  have i2: "formatPatterns ['''', '' a''] [] \<noteq> (['''', '' a''], [])"
    by simp
  from s1 v1 i1 s2 v2 i2 show ?thesis by blast
qed

section \<open>Placeholders in the text of a pattern\<close>






declare string_of_nat.simps [simp del]























end
